theory Spec2Isabelle
  imports Main "HOL-Library.Multiset"
begin

section \<open>Error values\<close>

text \<open>
  Errors are JavaScript \<open>Error\<close> objects, as the TypeScript signatures declare them
  (\<open>error?: Error\<close>): the class that \<open>instanceof\<close> tests, the \<open>name\<close>, the
  \<open>message\<close>, the optional \<open>stack\<close> and the optional \<open>cause\<close>.
\<close>

datatype err_class = ErrorClass | LimiterRetryErrorClass

datatype js_error =
  JsError (cls: err_class) (ename: string) (message: string)
          (stack: "string option") (cause: "js_error option")

text \<open>
  \<open>class LimiterRetryError extends Error\<close>: \<open>super(message)\<close> builds the object (with
  the stack captured there, the first parameter here), the name becomes \<open>RetryError\<close>,
  and \<open>if (error)\<close> copies the stack of the wrapped error and stores it as the cause.
\<close>

definition LimiterRetryError :: "string option \<Rightarrow> string \<Rightarrow> js_error option \<Rightarrow> js_error" where
  "LimiterRetryError captured msg error =
     (case error of
        None \<Rightarrow> JsError LimiterRetryErrorClass ''RetryError'' msg captured None
      | Some e \<Rightarrow> JsError LimiterRetryErrorClass ''RetryError'' msg (stack e) (Some e))"

definition instanceof_LimiterRetryError :: "js_error \<Rightarrow> bool" where
  "instanceof_LimiterRetryError e = (cls e = LimiterRetryErrorClass)"

text \<open>The stack that \<open>super(message)\<close> captures inside \<open>process\<close>.\<close>

definition process_stack :: "string option" where
  "process_stack = Some ''RetryError: Retry limit exceeded at Limiter.process''"

section \<open>Tasks, items and the limiter\<close>

text \<open>
  A task is an opaque callback, named by a number. What it does is the world's business:
  \<open>w c n\<close> is the behaviour of the \<open>n\<close>-th invocation (counting from 0) of callback
  \<open>c\<close>: the time in milliseconds until the promise it returns settles, and the error it
  rejects with, if any. Every invocation settles after a finite time.
\<close>

type_synonym world = "nat \<Rightarrow> nat \<Rightarrow> nat \<times> js_error option"

record retry_item =
  callback :: nat
  retries :: nat
  error :: "js_error option"

text \<open>
  What \<open>process(...callbacks)\<close> can receive in one position: a falsy value, a callback,
  or a retry item.
\<close>

datatype item = Falsy | Fn nat | Retry retry_item

text \<open>\<open>item.callback || item\<close> and \<open>item.retries ?? this.#maxRetry\<close>.\<close>

fun item_callback :: "item \<Rightarrow> nat" where
  "item_callback (Fn c) = c"
| "item_callback (Retry r) = callback r"
| "item_callback Falsy = 0"

fun item_retries :: "nat \<Rightarrow> item \<Rightarrow> nat" where
  "item_retries m (Retry r) = retries r"
| "item_retries m _ = m"

text \<open>
  A wrapper promise that has not settled is either waiting in the \<open>setTimeout\<close> of
  \<open>#limitRps\<close> (\<open>Gate\<close>) or waiting for its callback, already invoked, whose result
  is known to the world (\<open>Run\<close>). \<open>etime\<close> is the instant at which it moves on.
\<close>

datatype phase = Gate | Run "js_error option"

record entry =
  epid :: nat
  eitem :: item
  etime :: int
  ephase :: phase

text \<open>
  The private fields of \<open>Limiter\<close> (\<open>limit\<close> to \<open>tick\<close>), followed by the part of the
  JavaScript runtime the limiter lives in: the clock \<open>now\<close> (\<open>Date.now()\<close>), the
  wrapper promises still pending (\<open>inflight\<close>, in the order their timers were created),
  the rejected ones with their reasons in the order they were rejected, the promises that
  got a \<open>.catch(this.#onError)\<close> handler while pending, and the next promise identity.
  Four logs observe a run: the items admitted, the callbacks invoked, the errors passed
  to \<open>onError\<close> (\<open>onError\<close> itself only says whether a sink was configured), and
  the value of \<open>#promisesCount\<close> after each change.

  \<open>maxRetry\<close> is a number of retries; the \<open>Infinity\<close> sentinel is not modelled.
  \<open>rps\<close> is \<open>None\<close> when unset, and \<open>Some 0\<close> is falsy as well.
\<close>

record state =
  limit :: int
  processing :: bool
  promisesCount :: int
  promises :: "nat list"
  retryQueue :: "retry_item list"
  maxRetry :: nat
  rps :: "nat option"
  onError :: bool
  tick :: int
  now :: int
  inflight :: "entry list"
  rejected :: "(nat \<times> js_error) list"
  handled :: "nat list"
  nextId :: nat
  admitted :: "item list"
  calls :: "nat list"
  sink :: "js_error list"
  samples :: "int list"

text \<open>\<open>new Limiter({limit, rps, maxRetry, onError})\<close> at time \<open>t\<close>, nothing running.\<close>

definition Limiter :: "int \<Rightarrow> nat option \<Rightarrow> nat \<Rightarrow> bool \<Rightarrow> int \<Rightarrow> state" where
  "Limiter l r m oe t =
     \<lparr>limit = l, processing = False, promisesCount = 0, promises = [], retryQueue = [],
      maxRetry = m, rps = r, onError = oe, tick = t, now = t, inflight = [],
      rejected = [], handled = [], nextId = 0, admitted = [], calls = [], sink = [],
      samples = []\<rparr>"

text \<open>The getters \<open>length\<close> and \<open>isProcessing\<close>.\<close>

definition length_prop :: "state \<Rightarrow> int" where
  "length_prop s = promisesCount s"

definition isProcessing :: "state \<Rightarrow> bool" where
  "isProcessing s = processing s"

section \<open>The throughput gate\<close>

text \<open>\<open>this.#promisesCount++\<close> and \<open>this.#promisesCount--\<close>, each sampled.\<close>

definition count_up :: "state \<Rightarrow> state" where
  "count_up s = s\<lparr>promisesCount := promisesCount s + 1,
                  samples := samples s @ [promisesCount s + 1]\<rparr>"

definition count_down :: "state \<Rightarrow> state" where
  "count_down s = s\<lparr>promisesCount := promisesCount s - 1,
                    samples := samples s @ [promisesCount s - 1]\<rparr>"

text \<open>
  \<open>callback()\<close>: the invocation is logged, the world says how it will end, and the
  wrapper waits for it.
\<close>

definition outcome :: "world \<Rightarrow> state \<Rightarrow> item \<Rightarrow> nat \<times> js_error option" where
  "outcome w s it = w (item_callback it) (count_list (calls s) (item_callback it))"

definition invoke :: "world \<Rightarrow> nat \<Rightarrow> item \<Rightarrow> state \<Rightarrow> state" where
  "invoke w p it s =
     s\<lparr>calls := calls s @ [item_callback it],
       inflight := inflight s @
         [\<lparr>epid = p, eitem = it, etime = now s + int (fst (outcome w s it)),
           ephase = Run (snd (outcome w s it))\<rparr>]\<rparr>"

text \<open>
  \<open>await new Promise((resolve) => setTimeout(resolve, delay))\<close>: the wrapper is parked
  until the timer fires. A timer fires at the first whole millisecond that is not before
  the requested delay.
\<close>

definition park :: "nat \<Rightarrow> item \<Rightarrow> int \<Rightarrow> state \<Rightarrow> state" where
  "park p it t s =
     s\<lparr>inflight := inflight s @ [\<lparr>epid = p, eitem = it, etime = t, ephase = Gate\<rparr>]\<rparr>"

text \<open>\<open>1000 / rps\<close>, rounded up to whole milliseconds, for \<open>rps > 0\<close>.\<close>

definition period :: "nat \<Rightarrow> int" where
  "period r = (999 + int r) div int r"

text \<open>
  \<open>#limitRps\<close> from \<open>const diff = Date.now() - this.#tick\<close> on, that is after the
  optional wait. \<open>diff < 1000 / rps\<close> is \<open>diff * rps < 1000\<close> on integers. The
  recursive call \<open>#limitRps(callback, 1000 / rps - diff)\<close> has a positive delay, so it
  parks the wrapper, which runs this check again when the timer fires. With \<open>rps\<close>
  undefined the comparison with \<open>NaN\<close> is false; with \<open>rps = 0\<close> the recursive call
  returns through its first line.
\<close>

definition limitRps_check :: "world \<Rightarrow> nat \<Rightarrow> item \<Rightarrow> state \<Rightarrow> state" where
  "limitRps_check w p it s =
     (case rps s of
        None \<Rightarrow> invoke w p it (s\<lparr>tick := now s\<rparr>)
      | Some r \<Rightarrow>
          if r = 0 then invoke w p it s
          else let diff = now s - tick s in
            if diff * int r < 1000 then park p it (now s + (period r - diff)) s
            else invoke w p it (s\<lparr>tick := now s\<rparr>))"

text \<open>\<open>#limitRps(callback)\<close> as the wrapper calls it, with \<open>delay = 0\<close>.\<close>

definition limitRps :: "world \<Rightarrow> nat \<Rightarrow> item \<Rightarrow> state \<Rightarrow> state" where
  "limitRps w p it s =
     (case rps s of
        None \<Rightarrow> invoke w p it s
      | Some r \<Rightarrow> if r = 0 then invoke w p it s else limitRps_check w p it s)"

section \<open>The event loop\<close>

text \<open>
  The body of the wrapper after \<open>await this.#limitRps(callback)\<close> has settled: the
  count goes down; a success resolves the wrapper; a failure is captured in the retry
  queue when \<open>maxRetry > 0\<close> (the wrapper then resolves), and is thrown otherwise, which
  rejects the wrapper and runs the \<open>onError\<close> handler if one was attached to it.
\<close>

definition settle :: "entry \<Rightarrow> js_error option \<Rightarrow> state \<Rightarrow> state" where
  "settle e res s =
     (let s1 = count_down s in
      case res of
        None \<Rightarrow> s1
      | Some err \<Rightarrow>
          if maxRetry s1 > 0 then
            s1\<lparr>retryQueue := retryQueue s1 @
                 [\<lparr>callback = item_callback (eitem e),
                   retries = item_retries (maxRetry s1) (eitem e),
                   error = Some err\<rparr>]\<rparr>
          else
            s1\<lparr>rejected := rejected s1 @ [(epid e, err)],
                sink := (if epid e \<in> set (handled s1) then sink s1 @ [err] else sink s1)\<rparr>)"

text \<open>The pending wrapper that moves next: the least instant, the oldest timer first.\<close>

fun earliest :: "entry list \<Rightarrow> entry option" where
  "earliest [] = None"
| "earliest (e # es) =
     (case earliest es of
        None \<Rightarrow> Some e
      | Some e' \<Rightarrow> if etime e \<le> etime e' then Some e else Some e')"

text \<open>
  One event: the clock reaches the instant of the earliest pending wrapper, which either
  wakes up in the gate and checks again, or settles.
\<close>

definition fire :: "world \<Rightarrow> state \<Rightarrow> state" where
  "fire w s =
     (case earliest (inflight s) of
        None \<Rightarrow> s
      | Some e \<Rightarrow>
          (let s1 = s\<lparr>now := max (now s) (etime e), inflight := remove1 e (inflight s)\<rparr> in
           (case ephase e of
              Gate \<Rightarrow> limitRps_check w (epid e) (eitem e) s1
            | Run res \<Rightarrow> settle e res s1)))"

definition is_rejected :: "state \<Rightarrow> nat \<Rightarrow> bool" where
  "is_rejected s p = (p \<in> fst ` set (rejected s))"

definition is_pending :: "state \<Rightarrow> nat \<Rightarrow> bool" where
  "is_pending s p = (p \<in> epid ` set (inflight s))"

text \<open>\<open>Promise.all(ps)\<close> has settled: one of \<open>ps\<close> is rejected, or none is pending.\<close>

definition all_settled :: "nat list \<Rightarrow> state \<Rightarrow> bool" where
  "all_settled ps s = (list_ex (is_rejected s) ps \<or> \<not> list_ex (is_pending s) ps)"

text \<open>Some pending wrapper moves at the present instant.\<close>

definition due :: "state \<Rightarrow> bool" where
  "due s = list_ex (\<lambda>e. etime e \<le> now s) (inflight s)"

text \<open>
  The measure of the event loop. A parked wrapper is stale when the tick has moved since
  it went to sleep, so that it will sleep again when it wakes up.
\<close>

definition gates :: "state \<Rightarrow> nat" where
  "gates s = length (filter (\<lambda>e. ephase e = Gate) (inflight s))"

definition is_stale :: "nat option \<Rightarrow> int \<Rightarrow> entry \<Rightarrow> bool" where
  "is_stale ro t e = (ephase e = Gate \<and>
     (case ro of None \<Rightarrow> False | Some r \<Rightarrow> r \<noteq> 0 \<and> (etime e - t) * int r < 1000))"

definition stale :: "state \<Rightarrow> nat" where
  "stale s = length (filter (is_stale (rps s) (tick s)) (inflight s))"

text \<open>
  \<open>await Promise.all(ps)\<close>: events happen until \<open>Promise.all(ps)\<close> has settled; the
  awaiting \<open>#execute\<close> resumes once everything that happens at that same instant has
  happened (wrappers that settle together have all run their \<open>#promisesCount--\<close> by
  the time the continuation runs).
\<close>

function await_all :: "world \<Rightarrow> nat list \<Rightarrow> state \<Rightarrow> state" where
  "await_all w ps s =
     (if inflight s = [] \<or> (all_settled ps s \<and> \<not> due s) then s
      else await_all w ps (fire w s))"
  by pat_completeness auto


section \<open>What each step leaves alone\<close>

lemma count_up_keeps [simp]:
  "limit (count_up s) = limit s"
  "processing (count_up s) = processing s"
  "promises (count_up s) = promises s"
  "retryQueue (count_up s) = retryQueue s"
  "maxRetry (count_up s) = maxRetry s"
  "rps (count_up s) = rps s"
  "onError (count_up s) = onError s"
  "tick (count_up s) = tick s"
  "now (count_up s) = now s"
  "inflight (count_up s) = inflight s"
  "rejected (count_up s) = rejected s"
  "handled (count_up s) = handled s"
  "nextId (count_up s) = nextId s"
  "admitted (count_up s) = admitted s"
  "calls (count_up s) = calls s"
  "sink (count_up s) = sink s"
  by (simp_all add: count_up_def)

lemma count_down_keeps [simp]:
  "limit (count_down s) = limit s"
  "processing (count_down s) = processing s"
  "promises (count_down s) = promises s"
  "retryQueue (count_down s) = retryQueue s"
  "maxRetry (count_down s) = maxRetry s"
  "rps (count_down s) = rps s"
  "onError (count_down s) = onError s"
  "tick (count_down s) = tick s"
  "now (count_down s) = now s"
  "inflight (count_down s) = inflight s"
  "rejected (count_down s) = rejected s"
  "handled (count_down s) = handled s"
  "nextId (count_down s) = nextId s"
  "admitted (count_down s) = admitted s"
  "calls (count_down s) = calls s"
  "sink (count_down s) = sink s"
  by (simp_all add: count_down_def)

lemma invoke_keeps [simp]:
  "limit (invoke w p it s) = limit s"
  "processing (invoke w p it s) = processing s"
  "promisesCount (invoke w p it s) = promisesCount s"
  "promises (invoke w p it s) = promises s"
  "retryQueue (invoke w p it s) = retryQueue s"
  "maxRetry (invoke w p it s) = maxRetry s"
  "rps (invoke w p it s) = rps s"
  "onError (invoke w p it s) = onError s"
  "tick (invoke w p it s) = tick s"
  "now (invoke w p it s) = now s"
  "rejected (invoke w p it s) = rejected s"
  "handled (invoke w p it s) = handled s"
  "nextId (invoke w p it s) = nextId s"
  "admitted (invoke w p it s) = admitted s"
  "sink (invoke w p it s) = sink s"
  "samples (invoke w p it s) = samples s"
  by (simp_all add: invoke_def)

lemma park_keeps [simp]:
  "limit (park p it t s) = limit s"
  "processing (park p it t s) = processing s"
  "promisesCount (park p it t s) = promisesCount s"
  "promises (park p it t s) = promises s"
  "retryQueue (park p it t s) = retryQueue s"
  "maxRetry (park p it t s) = maxRetry s"
  "rps (park p it t s) = rps s"
  "onError (park p it t s) = onError s"
  "tick (park p it t s) = tick s"
  "now (park p it t s) = now s"
  "rejected (park p it t s) = rejected s"
  "handled (park p it t s) = handled s"
  "nextId (park p it t s) = nextId s"
  "admitted (park p it t s) = admitted s"
  "calls (park p it t s) = calls s"
  "sink (park p it t s) = sink s"
  "samples (park p it t s) = samples s"
  by (simp_all add: park_def)

lemma limitRps_check_keeps [simp]:
  "limit (limitRps_check w p it s) = limit s"
  "processing (limitRps_check w p it s) = processing s"
  "promisesCount (limitRps_check w p it s) = promisesCount s"
  "promises (limitRps_check w p it s) = promises s"
  "retryQueue (limitRps_check w p it s) = retryQueue s"
  "maxRetry (limitRps_check w p it s) = maxRetry s"
  "rps (limitRps_check w p it s) = rps s"
  "onError (limitRps_check w p it s) = onError s"
  "now (limitRps_check w p it s) = now s"
  "rejected (limitRps_check w p it s) = rejected s"
  "handled (limitRps_check w p it s) = handled s"
  "nextId (limitRps_check w p it s) = nextId s"
  "admitted (limitRps_check w p it s) = admitted s"
  "sink (limitRps_check w p it s) = sink s"
  "samples (limitRps_check w p it s) = samples s"
  by (simp_all add: limitRps_check_def Let_def split: option.splits)

lemma limitRps_keeps [simp]:
  "limit (limitRps w p it s) = limit s"
  "processing (limitRps w p it s) = processing s"
  "promisesCount (limitRps w p it s) = promisesCount s"
  "promises (limitRps w p it s) = promises s"
  "retryQueue (limitRps w p it s) = retryQueue s"
  "maxRetry (limitRps w p it s) = maxRetry s"
  "rps (limitRps w p it s) = rps s"
  "onError (limitRps w p it s) = onError s"
  "now (limitRps w p it s) = now s"
  "rejected (limitRps w p it s) = rejected s"
  "handled (limitRps w p it s) = handled s"
  "nextId (limitRps w p it s) = nextId s"
  "admitted (limitRps w p it s) = admitted s"
  "sink (limitRps w p it s) = sink s"
  "samples (limitRps w p it s) = samples s"
  by (simp_all add: limitRps_def split: option.splits)

lemma settle_keeps [simp]:
  "limit (settle e res s) = limit s"
  "processing (settle e res s) = processing s"
  "promises (settle e res s) = promises s"
  "maxRetry (settle e res s) = maxRetry s"
  "rps (settle e res s) = rps s"
  "onError (settle e res s) = onError s"
  "tick (settle e res s) = tick s"
  "now (settle e res s) = now s"
  "inflight (settle e res s) = inflight s"
  "handled (settle e res s) = handled s"
  "nextId (settle e res s) = nextId s"
  "admitted (settle e res s) = admitted s"
  "calls (settle e res s) = calls s"
  by (simp_all add: settle_def Let_def split: option.splits)


lemma count_up_changes [simp]:
  "promisesCount (count_up s) = promisesCount s + 1"
  "samples (count_up s) = samples s @ [promisesCount s + 1]"
  by (simp_all add: count_up_def)

lemma count_down_changes [simp]:
  "promisesCount (count_down s) = promisesCount s - 1"
  "samples (count_down s) = samples s @ [promisesCount s - 1]"
  by (simp_all add: count_down_def)

lemma invoke_changes [simp]:
  "calls (invoke w p it s) = calls s @ [item_callback it]"
  "inflight (invoke w p it s) = inflight s @
     [\<lparr>epid = p, eitem = it, etime = now s + int (fst (outcome w s it)),
       ephase = Run (snd (outcome w s it))\<rparr>]"
  by (simp_all add: invoke_def)

lemma park_changes [simp]:
  "inflight (park p it t s) = inflight s @ [\<lparr>epid = p, eitem = it, etime = t, ephase = Gate\<rparr>]"
  by (simp add: park_def)

lemma settle_changes [simp]:
  "promisesCount (settle e res s) = promisesCount s - 1"
  "samples (settle e res s) = samples s @ [promisesCount s - 1]"
  by (simp_all add: settle_def Let_def split: option.splits)

lemma settle_ok [simp]:
  "retryQueue (settle e None s) = retryQueue s"
  "rejected (settle e None s) = rejected s"
  "sink (settle e None s) = sink s"
  by (simp_all add: settle_def Let_def)

lemma settle_retry [simp]:
  "0 < maxRetry s \<Longrightarrow> retryQueue (settle e (Some err) s) = retryQueue s @
     [\<lparr>callback = item_callback (eitem e), retries = item_retries (maxRetry s) (eitem e),
       error = Some err\<rparr>]"
  "0 < maxRetry s \<Longrightarrow> rejected (settle e (Some err) s) = rejected s"
  "0 < maxRetry s \<Longrightarrow> sink (settle e (Some err) s) = sink s"
  by (simp_all add: settle_def Let_def)

lemma settle_throw [simp]:
  "maxRetry s = 0 \<Longrightarrow> retryQueue (settle e (Some err) s) = retryQueue s"
  "maxRetry s = 0 \<Longrightarrow> rejected (settle e (Some err) s) = rejected s @ [(epid e, err)]"
  "maxRetry s = 0 \<Longrightarrow> sink (settle e (Some err) s) =
     (if epid e \<in> set (handled s) then sink s @ [err] else sink s)"
  by (simp_all add: settle_def Let_def)

text \<open>The gate either parks the wrapper until one period after the tick, or invokes.\<close>

lemma limitRps_check_cases:
  "(\<exists>r. rps s = Some r \<and> 0 < r \<and> (now s - tick s) * int r < 1000 \<and>
        limitRps_check w p it s = park p it (tick s + period r) s) \<or>
   (\<not> (\<exists>r. rps s = Some r \<and> 0 < r \<and> (now s - tick s) * int r < 1000) \<and>
        (limitRps_check w p it s = invoke w p it s \<or>
         limitRps_check w p it s = invoke w p it (s\<lparr>tick := now s\<rparr>)))"
  by (cases "rps s") (auto simp: limitRps_check_def Let_def)

lemma limitRps_cases:
  "(\<exists>r. rps s = Some r \<and> 0 < r \<and> (now s - tick s) * int r < 1000 \<and>
        limitRps w p it s = park p it (tick s + period r) s) \<or>
   (limitRps w p it s = invoke w p it s \<or>
    limitRps w p it s = invoke w p it (s\<lparr>tick := now s\<rparr>))"
  using limitRps_check_cases[of s w p it]
  by (cases "rps s") (auto simp: limitRps_def)

lemma earliest_mem: "earliest es = Some e \<Longrightarrow> e \<in> set es"
  by (induction es arbitrary: e) (auto split: option.splits if_splits)

lemma earliest_None: "earliest es = None \<longleftrightarrow> es = []"
  by (cases es) (auto split: option.splits)

lemma fire_None: "inflight s = [] \<Longrightarrow> fire w s = s"
  by (simp add: fire_def)

lemma fire_Gate:
  "earliest (inflight s) = Some e \<Longrightarrow> ephase e = Gate \<Longrightarrow>
   fire w s = limitRps_check w (epid e) (eitem e)
                (s\<lparr>now := max (now s) (etime e), inflight := remove1 e (inflight s)\<rparr>)"
  by (simp add: fire_def)

lemma fire_Run:
  "earliest (inflight s) = Some e \<Longrightarrow> ephase e = Run res \<Longrightarrow>
   fire w s = settle e res (s\<lparr>now := max (now s) (etime e), inflight := remove1 e (inflight s)\<rparr>)"
  by (simp add: fire_def)

lemma period_ge: "r > 0 \<Longrightarrow> 1000 \<le> period r * int r"
proof -
  assume r: "r > 0"
  have "(999 + int r) div int r * int r + (999 + int r) mod int r = 999 + int r"
    by (rule div_mult_mod_eq)
  moreover have "(999 + int r) mod int r < int r" using r by (intro pos_mod_bound) simp
  ultimately show ?thesis unfolding period_def by linarith
qed

lemma filter_pos: "e \<in> set es \<Longrightarrow> P e \<Longrightarrow> 0 < length (filter P es)"
  by (induction es) auto

lemma length_filter_remove1:
  "e \<in> set es \<Longrightarrow> length (filter P (remove1 e es)) = length (filter P es) - (if P e then 1 else 0)"
proof (induction es)
  case Nil then show ?case by simp
next
  case (Cons a es)
  show ?case
  proof (cases "a = e")
    case True then show ?thesis by simp
  next
    case False
    with Cons have "e \<in> set es" by simp
    with Cons.IH filter_pos[of e es P] False show ?thesis by (auto simp: Suc_diff_le)
  qed
qed

lemma fire_decreases:
  assumes "inflight s \<noteq> []"
  shows "(fire w s, s) \<in> measures [gates, stale, \<lambda>s. length (inflight s)]"
proof -
  obtain e where e: "earliest (inflight s) = Some e"
    using assms earliest_None by (cases "earliest (inflight s)") auto
  have mem: "e \<in> set (inflight s)" using e by (rule earliest_mem)
  define s1 where "s1 = s\<lparr>now := max (now s) (etime e), inflight := remove1 e (inflight s)\<rparr>"
  have s1: "inflight s1 = remove1 e (inflight s)" "rps s1 = rps s" "tick s1 = tick s"
    "now s1 = max (now s) (etime e)"
    by (simp_all add: s1_def)
  show ?thesis
  proof (cases "ephase e")
    case (Run res)
    have f: "fire w s = settle e res s1" using fire_Run[OF e Run] by (simp add: s1_def)
    have "gates (fire w s) = gates s" "stale (fire w s) = stale s"
      "length (inflight (fire w s)) < length (inflight s)"
      using mem Run assms
      by (simp_all add: f s1 gates_def stale_def is_stale_def length_filter_remove1 length_remove1)
    then show ?thesis by simp
  next
    case Gate
    have f: "fire w s = limitRps_check w (epid e) (eitem e) s1"
      using fire_Gate[OF e Gate] by (simp add: s1_def)
    have g: "0 < gates s" unfolding gates_def using mem Gate by (intro filter_pos[of e]) auto
    have g1: "gates s1 = gates s - 1"
      using mem Gate by (simp add: gates_def s1 length_filter_remove1)
    from limitRps_check_cases[of s1 w "epid e" "eitem e"]
    show ?thesis
    proof (elim disjE exE conjE)
      fix r
      assume r: "rps s1 = Some r" "0 < r" and small: "(now s1 - tick s1) * int r < 1000"
        and p: "limitRps_check w (epid e) (eitem e) s1 = park (epid e) (eitem e) (tick s1 + period r) s1"
      have "(etime e - tick s) * int r \<le> (max (now s) (etime e) - tick s) * int r"
        using r by (intro mult_right_mono) auto
      also have "\<dots> < 1000" using small by (simp only: s1)
      finally have "(etime e - tick s) * int r < 1000" .
      then have st: "is_stale (rps s) (tick s) e"
        using r Gate by (simp add: s1 is_stale_def)
      have s0: "0 < stale s" unfolding stale_def using mem st by (rule filter_pos)
      have "gates (fire w s) = gates s" using g g1 by (simp add: f p gates_def)
      moreover have "stale (fire w s) = stale s - 1"
        using period_ge[OF r(2)] r mem st
        by (simp add: f p stale_def s1 length_filter_remove1 is_stale_def)
      ultimately show ?thesis using s0 by simp
    next
      assume "limitRps_check w (epid e) (eitem e) s1 = invoke w (epid e) (eitem e) s1"
      then have "gates (fire w s) = gates s - 1" using g1 by (simp add: f gates_def)
      then show ?thesis using g by simp
    next
      assume "limitRps_check w (epid e) (eitem e) s1 = invoke w (epid e) (eitem e) (s1\<lparr>tick := now s1\<rparr>)"
      then have "gates (fire w s) = gates s - 1" using g1 by (simp add: f gates_def)
      then show ?thesis using g by simp
    qed
  qed
qed

text \<open>Every event makes the measure smaller, so the event loop comes to an end.\<close>

termination await_all
proof (relation "inv_image (measures [gates, stale, \<lambda>s. length (inflight s)]) (\<lambda>(w, ps, s). s)")
  show "wf (inv_image (measures [gates, stale, \<lambda>s. length (inflight s)])
            (\<lambda>(w :: world, ps :: nat list, s :: state). s))"
    by simp
next
  fix w :: world and ps :: "nat list" and s :: state
  assume "\<not> (inflight s = [] \<or> all_settled ps s \<and> \<not> due s)"
  then have "inflight s \<noteq> []" by simp
  then have "(fire w s, s) \<in> measures [gates, stale, \<lambda>s. length (inflight s)]"
    by (rule fire_decreases)
  then show "((w, ps, fire w s), (w, ps, s)) \<in>
      inv_image (measures [gates, stale, \<lambda>s. length (inflight s)]) (\<lambda>(w, ps, s). s)"
    by (simp only: in_inv_image split_conv)
qed

declare await_all.simps [simp del]

lemma await_all_stop:
  "inflight s = [] \<or> (all_settled ps s \<and> \<not> due s) \<Longrightarrow> await_all w ps s = s"
  by (subst await_all.simps) simp

lemma await_all_step:
  "\<not> (inflight s = [] \<or> (all_settled ps s \<and> \<not> due s)) \<Longrightarrow>
   await_all w ps s = await_all w ps (fire w s)"
  by (subst await_all.simps) auto

section \<open>Draining and admission\<close>

text \<open>
  \<open>promise.catch(this.#onError)\<close>: on a rejected promise the handler runs with the
  reason; on a pending one it is kept for later; on a resolved one nothing happens.
\<close>

definition attach_catch :: "nat \<Rightarrow> state \<Rightarrow> state" where
  "attach_catch p s =
     (case map_of (rejected s) p of
        Some err \<Rightarrow> s\<lparr>sink := sink s @ [err]\<rparr>
      | None \<Rightarrow> if is_pending s p then s\<lparr>handled := p # handled s\<rparr> else s)"

lemma attach_catch_keeps [simp]:
  "limit (attach_catch p s) = limit s"
  "processing (attach_catch p s) = processing s"
  "promisesCount (attach_catch p s) = promisesCount s"
  "promises (attach_catch p s) = promises s"
  "retryQueue (attach_catch p s) = retryQueue s"
  "maxRetry (attach_catch p s) = maxRetry s"
  "rps (attach_catch p s) = rps s"
  "onError (attach_catch p s) = onError s"
  "tick (attach_catch p s) = tick s"
  "now (attach_catch p s) = now s"
  "inflight (attach_catch p s) = inflight s"
  "rejected (attach_catch p s) = rejected s"
  "nextId (attach_catch p s) = nextId s"
  "admitted (attach_catch p s) = admitted s"
  "calls (attach_catch p s) = calls s"
  "samples (attach_catch p s) = samples s"
  by (simp_all add: attach_catch_def split: option.splits)

text \<open>
  \<open>#execute\<close>. \<open>Promise.all\<close> rejects with the reason of the member rejected first.
  Without \<open>onError\<close> the reason is thrown (the first component of the result); with
  it, the promises are popped one by one and each gets the handler.
\<close>

definition execute :: "world \<Rightarrow> state \<Rightarrow> js_error option \<times> state" where
  "execute w s =
     (let s1 = await_all w (promises s) s in
      case find (\<lambda>(p, err). p \<in> set (promises s1)) (rejected s1) of
        None \<Rightarrow> (None, s1\<lparr>promises := []\<rparr>)
      | Some (p, err) \<Rightarrow>
          if \<not> onError s1 then (Some err, s1\<lparr>promises := [], processing := False\<rparr>)
          else (None, (fold attach_catch (rev (promises s1)) s1)\<lparr>promises := []\<rparr>))"

text \<open>
  One turn of the admission loop after the checks: the count goes up, the wrapper starts
  and runs up to its first suspension, and its promise is pushed.
\<close>

definition admit :: "world \<Rightarrow> item \<Rightarrow> state \<Rightarrow> state" where
  "admit w it s =
     (let s1 = count_up s;
          p = nextId s1;
          s2 = limitRps w p it (s1\<lparr>nextId := Suc p\<rparr>)
      in s2\<lparr>promises := promises s2 @ [p], admitted := admitted s2 @ [it]\<rparr>)"

text \<open>
  The first loop of \<open>process\<close>, over the items in the order \<open>callbacks.pop()\<close> yields
  them. A falsy item ends the loop.
\<close>

fun admit_loop :: "world \<Rightarrow> item list \<Rightarrow> state \<Rightarrow> js_error option \<times> state" where
  "admit_loop w [] s = (None, s)"
| "admit_loop w (it # rest) s =
     (if it = Falsy then (None, s)
      else case (if promisesCount s \<ge> limit s then execute w s else (None, s)) of
        (Some err, s1) \<Rightarrow> (Some err, s1)
      | (None, s1) \<Rightarrow> admit_loop w rest (admit w it s1))"

text \<open>
  The second loop of \<open>process\<close>, over the retry queue in the order
  \<open>this.#retryQueue.pop()\<close> yields its items; the second argument is \<open>retryItems\<close>.
\<close>

fun retry_loop ::
  "retry_item list \<Rightarrow> retry_item list \<Rightarrow> state \<Rightarrow> js_error option \<times> retry_item list \<times> state" where
  "retry_loop [] retryItems s = (None, retryItems, s)"
| "retry_loop (it # q) retryItems s =
     (let s1 = s\<lparr>retryQueue := rev q\<rparr> in
      if retries it > 0 then
        retry_loop q (retryItems @ [it\<lparr>retries := retries it - 1\<rparr>]) s1
      else if onError s1 then
        retry_loop q retryItems
          (s1\<lparr>sink := sink s1 @ [LimiterRetryError process_stack ''Retry limit exceeded'' (error it)]\<rparr>)
      else
        (Some (LimiterRetryError process_stack ''Retry limit exceeded'' (error it)), retryItems,
         s1\<lparr>promises := [], retryQueue := [], processing := False\<rparr>))"

text \<open>
  \<open>process\<close> up to its recursive call: what is thrown, if anything, and the items to
  submit again.
\<close>

definition process_round ::
  "world \<Rightarrow> item list \<Rightarrow> state \<Rightarrow> js_error option \<times> retry_item list \<times> state" where
  "process_round w callbacks s =
     (case admit_loop w (rev callbacks) (s\<lparr>processing := True\<rparr>) of
        (Some err, s1) \<Rightarrow> (Some err, [], s1)
      | (None, s1) \<Rightarrow>
          (case (if promises s1 \<noteq> [] then execute w s1 else (None, s1)) of
             (Some err, s2) \<Rightarrow> (Some err, [], s2)
           | (None, s2) \<Rightarrow>
               if retryQueue s2 \<noteq> [] then retry_loop (rev (retryQueue s2)) [] s2
               else (None, [], s2)))"

section \<open>Resubmission\<close>

text \<open>
  The retries still owed: one more than the retries left, for every item of the retry queue
  and for every wrapper still pending. A round that submits items again has used some up.
\<close>

definition wq :: "retry_item list \<Rightarrow> nat" where
  "wq q = sum_list (map (\<lambda>r. Suc (retries r)) q)"

definition wi :: "nat \<Rightarrow> item list \<Rightarrow> nat" where
  "wi m xs = sum_list (map (\<lambda>it. Suc (item_retries m it)) xs)"

definition wt :: "state \<Rightarrow> nat" where
  "wt s = wq (retryQueue s) + wi (maxRetry s) (map eitem (inflight s))"

lemma sum_list_remove1:
  "e \<in> set es \<Longrightarrow> sum_list (map f (remove1 e es)) + f e = sum_list (map (f :: 'a \<Rightarrow> nat) es)"
  by (induction es) auto

lemma maxRetry_fire [simp]: "maxRetry (fire w s) = maxRetry s"
  by (auto simp: fire_def settle_def count_down_def limitRps_check_def invoke_def park_def Let_def
      split: option.splits phase.splits prod.splits)

lemma wt_fire: "wt (fire w s) \<le> wt s"
proof (cases "earliest (inflight s)")
  case None then show ?thesis by (simp add: fire_def)
next
  case (Some e)
  then have "e \<in> set (inflight s)" by (rule earliest_mem)
  from sum_list_remove1[OF this, of "\<lambda>e. Suc (item_retries (maxRetry s) (eitem e))"]
  have *: "wi (maxRetry s) (map eitem (remove1 e (inflight s))) + Suc (item_retries (maxRetry s) (eitem e))
        = wi (maxRetry s) (map eitem (inflight s))"
    by (simp add: wi_def comp_def)
  show ?thesis using Some *
    by (auto simp: fire_def settle_def count_down_def limitRps_check_def invoke_def park_def Let_def
        wt_def wq_def wi_def
      split: option.splits phase.splits prod.splits)
qed

lemma maxRetry_await_all [simp]: "maxRetry (await_all w ps s) = maxRetry s"
proof (induction w ps s rule: await_all.induct)
  case (1 w ps s)
  show ?case
  proof (cases "inflight s = [] \<or> (all_settled ps s \<and> \<not> due s)")
    case True then show ?thesis by (simp add: await_all_stop)
  next
    case False
    with 1[OF False] show ?thesis by (simp add: await_all_step)
  qed
qed

lemma wt_await_all: "wt (await_all w ps s) \<le> wt s"
proof (induction w ps s rule: await_all.induct)
  case (1 w ps s)
  show ?case
  proof (cases "inflight s = [] \<or> (all_settled ps s \<and> \<not> due s)")
    case True then show ?thesis by (simp add: await_all_stop)
  next
    case False
    with 1[OF False] wt_fire[of w s] show ?thesis by (simp add: await_all_step)
  qed
qed

lemma fold_attach_fields [simp]:
  "maxRetry (fold attach_catch ps s) = maxRetry s"
  "retryQueue (fold attach_catch ps s) = retryQueue s"
  "inflight (fold attach_catch ps s) = inflight s"
  by (induction ps arbitrary: s; simp add: attach_catch_def is_pending_def split: option.splits)+

lemma execute_wt: "execute w s = (r, s') \<Longrightarrow> wt s' \<le> wt s \<and> maxRetry s' = maxRetry s"
  using wt_await_all[of w "promises s" s]
  by (auto simp: execute_def Let_def wt_def split: option.splits if_splits prod.splits)

lemma admit_wt: "wt (admit w it s) = wt s + Suc (item_retries (maxRetry s) it) \<and> maxRetry (admit w it s) = maxRetry s"
  by (auto simp: admit_def count_up_def limitRps_def limitRps_check_def invoke_def park_def Let_def
        wt_def wq_def wi_def split: option.splits prod.splits)

lemma admit_loop_wt:
  "admit_loop w xs s = (r, s') \<Longrightarrow> wt s' \<le> wt s + wi (maxRetry s) xs \<and> maxRetry s' = maxRetry s"
proof (induction xs arbitrary: s r s')
  case Nil then show ?case by simp
next
  case (Cons it rest)
  show ?case
  proof (cases "it = Falsy")
    case True with Cons.prems show ?thesis by simp
  next
    case False
    obtain r1 s1 where ex: "(if promisesCount s \<ge> limit s then execute w s else (None, s)) = (r1, s1)"
      by (cases "(if promisesCount s \<ge> limit s then execute w s else (None, s))") auto
    then have s1: "wt s1 \<le> wt s \<and> maxRetry s1 = maxRetry s"
      using execute_wt[of w s r1 s1] by (auto split: if_splits)
    show ?thesis
    proof (cases r1)
      case (Some err)
      with Cons.prems False ex s1 show ?thesis by auto
    next
      case None
      with Cons.prems False ex have "admit_loop w rest (admit w it s1) = (r, s')" by simp
      from Cons.IH[OF this] admit_wt[of w it s1] s1 show ?thesis by (simp add: wi_def)
    qed
  qed
qed

lemma wq_rev [simp]: "wq (rev q) = wq q"
  by (simp add: wq_def rev_map[symmetric])

lemma retry_loop_wt:
  "retry_loop q acc s = (r, ris, s') \<Longrightarrow>
     wq ris + (length ris - length acc) \<le> wq acc + wq q \<and> length acc \<le> length ris \<and>
     inflight s' = inflight s \<and> maxRetry s' = maxRetry s \<and> retryQueue s' = (if q = [] then retryQueue s else [])"
proof (induction q arbitrary: acc s r ris s')
  case Nil then show ?case by simp
next
  case (Cons it q)
  show ?case
  proof (cases "retries it > 0")
    case True
    with Cons.prems have "retry_loop q (acc @ [it\<lparr>retries := retries it - 1\<rparr>]) (s\<lparr>retryQueue := rev q\<rparr>) = (r, ris, s')"
      by (simp add: Let_def)
    from Cons.IH[OF this] True show ?thesis by (cases q) (auto simp: wq_def)
  next
    case False
    show ?thesis
    proof (cases "onError s")
      case True
      with False Cons.prems have "retry_loop q acc (s\<lparr>retryQueue := rev q, sink := sink s @ [LimiterRetryError process_stack ''Retry limit exceeded'' (error it)]\<rparr>) = (r, ris, s')"
        by (simp add: Let_def)
      from Cons.IH[OF this] show ?thesis by (cases q) (auto simp: wq_def)
    next
      case oe: False
      with False Cons.prems show ?thesis by (auto simp: Let_def wq_def)
    qed
  qed
qed

lemma wi_rev [simp]: "wi m (rev xs) = wi m xs"
  by (simp add: wi_def rev_map[symmetric])

lemma wi_Retry [simp]: "wi m (map Retry ris) = wq ris"
  by (simp add: wi_def wq_def comp_def)

lemma process_round_decreases:
  assumes "process_round w xs s = (None, ris, s')" "ris \<noteq> []"
  shows "wi (maxRetry s') (map Retry ris) + wt s' < wi (maxRetry s) xs + wt s"
proof -
  obtain s1 where a: "admit_loop w (rev xs) (s\<lparr>processing := True\<rparr>) = (None, s1)"
    using assms by (auto simp: process_round_def split: prod.splits option.splits)
  have w1: "wt s1 \<le> wt s + wi (maxRetry s) xs" "maxRetry s1 = maxRetry s"
    using admit_loop_wt[OF a] by (auto simp: wt_def)
  obtain s2 where e: "(if promises s1 \<noteq> [] then execute w s1 else (None, s1)) = (None, s2)"
    and rl: "retryQueue s2 \<noteq> []" "retry_loop (rev (retryQueue s2)) [] s2 = (None, ris, s')"
    using assms a by (auto simp: process_round_def split: prod.splits option.splits if_splits)
  have w2: "wt s2 \<le> wt s1" "maxRetry s2 = maxRetry s1"
    using e execute_wt[of w s1 None s2] by (auto split: if_splits)
  have pos: "0 < length ris" using assms(2) by simp
  have nil: "wq [] = 0" by (simp add: wq_def)
  have rl': "wq ris + length ris \<le> wq (retryQueue s2)" "inflight s' = inflight s2"
    "maxRetry s' = maxRetry s2" "retryQueue s' = []"
    using retry_loop_wt[OF rl(2)] rl(1) nil by auto
  from rl'(1) pos have "wq ris < wq (retryQueue s2)" by linarith
  with rl'(2-4) have "wq ris + wt s' < wt s2" using nil by (simp add: wt_def)
  with w1 w2 show ?thesis by simp
qed

text \<open>
  \<open>process\<close>. The first component of the result is the reason the returned promise
  rejects with, \<open>None\<close> when it resolves; the second is the limiter and its runtime at
  that moment.
\<close>

function process :: "world \<Rightarrow> item list \<Rightarrow> state \<Rightarrow> js_error option \<times> state" where
  "process w callbacks s =
     (case process_round w callbacks s of
        (Some err, retryItems, s1) \<Rightarrow> (Some err, s1)
      | (None, retryItems, s1) \<Rightarrow>
          if retryItems \<noteq> [] then
            (case process w (map Retry retryItems) s1 of
               (Some err, s2) \<Rightarrow> (Some err, s2)
             | (None, s2) \<Rightarrow> (None, s2\<lparr>processing := False\<rparr>))
          else (None, s1\<lparr>processing := False\<rparr>))"
  by pat_completeness auto

termination process
  apply (relation "measure (\<lambda>(w, xs, s). wi (maxRetry s) xs + wt s)")
   apply simp
  apply clarsimp
  apply (drule sym)
  apply (drule process_round_decreases)
   apply simp_all
  done

declare process.simps [simp del]

text \<open>
  What is still pending when \<open>process\<close> has settled goes on by itself: the events that
  remain, until nothing is pending.
\<close>

function quiesce :: "world \<Rightarrow> state \<Rightarrow> state" where
  "quiesce w s = (if inflight s = [] then s else quiesce w (fire w s))"
  by pat_completeness auto

termination quiesce
  apply (relation "inv_image (measures [gates, stale, \<lambda>s. length (inflight s)]) snd")
   apply simp
  apply (simp only: in_inv_image snd_conv)
  apply (erule fire_decreases)
  done

declare quiesce.simps [simp del]

section \<open>Waiting for idle\<close>

text \<open>
  \<open>done()\<close>: while the limiter is processing, wait 10 ms and look again. \<open>env\<close> is
  what the rest of the program does to the limiter during one such wait. The result is the
  time spent waiting, \<open>None\<close> if the flag never clears.
\<close>

partial_function (option) done_idle :: "(state \<Rightarrow> state) \<Rightarrow> state \<Rightarrow> nat option" where
  "done_idle env s =
     (if isProcessing s then Option.bind (done_idle env (env s)) (\<lambda>t. Some (t + 10))
      else Some 0)"

section \<open>Invariants of the event loop\<close>

lemma fire_keeps [simp]:
  "limit (fire w s) = limit s"
  "processing (fire w s) = processing s"
  "promises (fire w s) = promises s"
  "maxRetry (fire w s) = maxRetry s"
  "rps (fire w s) = rps s"
  "onError (fire w s) = onError s"
  "handled (fire w s) = handled s"
  "nextId (fire w s) = nextId s"
  "admitted (fire w s) = admitted s"
  by (simp_all add: fire_def Let_def split: option.splits phase.splits)

text \<open>What holds before the wait and is kept by every event holds after the wait.\<close>

lemma await_all_rule:
  "P s \<Longrightarrow> (\<And>s. P s \<Longrightarrow> inflight s \<noteq> [] \<Longrightarrow> P (fire w s)) \<Longrightarrow> P (await_all w ps s)"
proof (induction w ps s rule: await_all.induct)
  case (1 w ps s)
  show ?case
  proof (cases "inflight s = [] \<or> (all_settled ps s \<and> \<not> due s)")
    case True then show ?thesis using 1(2) by (simp add: await_all_stop)
  next
    case False
    then have "inflight s \<noteq> []" by simp
    from 1(3)[OF 1(2) this] have "P (fire w s)" .
    from 1(1)[OF False this 1(3)] show ?thesis using False by (simp add: await_all_step)
  qed
qed

lemma await_all_post:
  "inflight (await_all w ps s) = [] \<or>
   (all_settled ps (await_all w ps s) \<and> \<not> due (await_all w ps s))"
proof (induction w ps s rule: await_all.induct)
  case (1 w ps s)
  show ?case
  proof (cases "inflight s = [] \<or> (all_settled ps s \<and> \<not> due s)")
    case True then show ?thesis by (simp add: await_all_stop)
  next
    case False
    with 1[OF False] show ?thesis by (simp add: await_all_step)
  qed
qed

lemma quiesce_rule:
  "P s \<Longrightarrow> (\<And>s. P s \<Longrightarrow> inflight s \<noteq> [] \<Longrightarrow> P (fire w s)) \<Longrightarrow> P (quiesce w s)"
proof (induction w s rule: quiesce.induct)
  case (1 w s)
  show ?case
  proof (cases "inflight s = []")
    case True then show ?thesis using 1(2) by (subst quiesce.simps) simp
  next
    case False
    from 1(3)[OF 1(2) False] have "P (fire w s)" .
    from 1(1)[OF False this 1(3)] show ?thesis using False by (subst quiesce.simps) simp
  qed
qed

lemma quiesce_post: "inflight (quiesce w s) = []"
proof (induction w s rule: quiesce.induct)
  case (1 w s)
  show ?case
  proof (cases "inflight s = []")
    case True then show ?thesis by (subst quiesce.simps) simp
  next
    case False
    with 1[OF False] show ?thesis by (subst quiesce.simps) simp
  qed
qed

lemma await_all_keeps [simp]:
  "limit (await_all w ps s) = limit s"
  "processing (await_all w ps s) = processing s"
  "promises (await_all w ps s) = promises s"
  "maxRetry (await_all w ps s) = maxRetry s"
  "rps (await_all w ps s) = rps s"
  "onError (await_all w ps s) = onError s"
  "handled (await_all w ps s) = handled s"
  "nextId (await_all w ps s) = nextId s"
  "admitted (await_all w ps s) = admitted s"
proof -
  show "limit (await_all w ps s) = limit s"
    by (rule await_all_rule[where P="\<lambda>x. limit x = limit s"]) simp_all
  show "processing (await_all w ps s) = processing s"
    by (rule await_all_rule[where P="\<lambda>x. processing x = processing s"]) simp_all
  show "promises (await_all w ps s) = promises s"
    by (rule await_all_rule[where P="\<lambda>x. promises x = promises s"]) simp_all
  show "maxRetry (await_all w ps s) = maxRetry s"
    by (rule await_all_rule[where P="\<lambda>x. maxRetry x = maxRetry s"]) simp_all
  show "rps (await_all w ps s) = rps s"
    by (rule await_all_rule[where P="\<lambda>x. rps x = rps s"]) simp_all
  show "onError (await_all w ps s) = onError s"
    by (rule await_all_rule[where P="\<lambda>x. onError x = onError s"]) simp_all
  show "handled (await_all w ps s) = handled s"
    by (rule await_all_rule[where P="\<lambda>x. handled x = handled s"]) simp_all
  show "nextId (await_all w ps s) = nextId s"
    by (rule await_all_rule[where P="\<lambda>x. nextId x = nextId s"]) simp_all
  show "admitted (await_all w ps s) = admitted s"
    by (rule await_all_rule[where P="\<lambda>x. admitted x = admitted s"]) simp_all
qed

section \<open>Rules for \<open>process\<close>\<close>

lemma admit_loop_Falsy: "admit_loop w (xs @ Falsy # ys) s = admit_loop w xs s"
  by (induction xs arbitrary: s) (auto split: prod.splits option.splits)

lemma process_round_Falsy: "process_round w (xs @ Falsy # ys) s = process_round w ys s"
  by (simp add: process_round_def admit_loop_Falsy)


lemma execute_throw_flag: "execute w s = (Some err, s') \<Longrightarrow> \<not> processing s'"
  by (auto simp: execute_def Let_def split: option.splits prod.splits if_splits)

lemma admit_loop_throw_flag: "admit_loop w xs s = (Some err, s') \<Longrightarrow> \<not> processing s'"
proof (induction xs arbitrary: s)
  case Nil then show ?case by simp
next
  case (Cons it rest)
  then show ?case
    by (auto split: if_splits prod.splits option.splits dest: execute_throw_flag)
qed

lemma retry_loop_throw_flag: "retry_loop q acc s = (Some err, ris, s') \<Longrightarrow> \<not> processing s'"
  by (induction q arbitrary: acc s) (auto simp: Let_def split: if_splits)

lemma process_round_throw_flag:
  "process_round w xs s = (Some err, ris, s') \<Longrightarrow> \<not> processing s'"
  by (auto simp: process_round_def split: prod.splits option.splits if_splits
      dest: execute_throw_flag admit_loop_throw_flag retry_loop_throw_flag)

lemma process_throw:
  "process_round w xs s = (Some err, ris, s1) \<Longrightarrow> process w xs s = (Some err, s1)"
  by (subst process.simps) simp

lemma process_done:
  "process_round w xs s = (None, [], s1) \<Longrightarrow> process w xs s = (None, s1\<lparr>processing := False\<rparr>)"
  by (subst process.simps) simp

lemma process_again:
  "process_round w xs s = (None, ris, s1) \<Longrightarrow> ris \<noteq> [] \<Longrightarrow>
   process w xs s =
     (case process w (map Retry ris) s1 of
        (Some err, s2) \<Rightarrow> (Some err, s2)
      | (None, s2) \<Rightarrow> (None, s2\<lparr>processing := False\<rparr>))"
  by (subst process.simps) simp

lemma process_induct [case_names round]:
  assumes "\<And>w xs s. (\<And>ris s1. process_round w xs s = (None, ris, s1) \<Longrightarrow> ris \<noteq> [] \<Longrightarrow>
              P w (map Retry ris) s1) \<Longrightarrow> P w xs s"
  shows "P w xs s"
proof (induction w xs s rule: process.induct)
  case (1 w callbacks s)
  show ?case
  proof (rule assms)
    fix ris s1
    assume a: "process_round w callbacks s = (None, ris, s1)" "ris \<noteq> []"
    show "P w (map Retry ris) s1"
      by (rule 1[OF a(1)[symmetric] refl refl a(2)])
  qed
qed

lemma process_flag: "\<not> processing (snd (process w xs s))"
proof (induction w xs s rule: process_induct)
  case (round w xs s)
  obtain r ris s1 where pr: "process_round w xs s = (r, ris, s1)"
    by (cases "process_round w xs s") auto
  show ?case
  proof (cases r)
    case (Some err)
    with pr process_round_throw_flag[of w xs s err ris s1] show ?thesis
      by (simp add: process_throw)
  next
    case None
    show ?thesis
    proof (cases "ris = []")
      case True
      with pr None show ?thesis by (simp add: process_done)
    next
      case False
      with round[of ris s1] None pr
      show ?thesis by (auto simp: process_again split: prod.splits option.splits)
    qed
  qed
qed

section \<open>What draining and admission leave alone\<close>

lemma admit_gate:
  "admit w it s =
     (limitRps w (nextId s) it ((count_up s)\<lparr>nextId := Suc (nextId s)\<rparr>))
       \<lparr>promises := promises s @ [nextId s], admitted := admitted s @ [it]\<rparr>"
  by (simp add: admit_def Let_def)


lemma fold_attach_keeps [simp]:
  "limit (fold attach_catch ps s) = limit s"
  "processing (fold attach_catch ps s) = processing s"
  "promisesCount (fold attach_catch ps s) = promisesCount s"
  "promises (fold attach_catch ps s) = promises s"
  "rps (fold attach_catch ps s) = rps s"
  "onError (fold attach_catch ps s) = onError s"
  "tick (fold attach_catch ps s) = tick s"
  "now (fold attach_catch ps s) = now s"
  "rejected (fold attach_catch ps s) = rejected s"
  "nextId (fold attach_catch ps s) = nextId s"
  "admitted (fold attach_catch ps s) = admitted s"
  "calls (fold attach_catch ps s) = calls s"
  "samples (fold attach_catch ps s) = samples s"
  by (induction ps arbitrary: s; simp)+

lemma execute_keeps:
  assumes "execute w s = (r, s')"
  shows "limit s' = limit s" "maxRetry s' = maxRetry s" "rps s' = rps s" "onError s' = onError s"
    "nextId s' = nextId s" "admitted s' = admitted s" "promises s' = []"
  using assms
  by (auto simp: execute_def Let_def split: option.splits if_splits prod.splits)

lemma admit_keeps [simp]:
  "limit (admit w it s) = limit s"
  "processing (admit w it s) = processing s"
  "retryQueue (admit w it s) = retryQueue s"
  "maxRetry (admit w it s) = maxRetry s"
  "rps (admit w it s) = rps s"
  "onError (admit w it s) = onError s"
  "now (admit w it s) = now s"
  "rejected (admit w it s) = rejected s"
  "handled (admit w it s) = handled s"
  "sink (admit w it s) = sink s"
  by (simp_all add: admit_gate)

lemma admit_changes [simp]:
  "promisesCount (admit w it s) = promisesCount s + 1"
  "samples (admit w it s) = samples s @ [promisesCount s + 1]"
  "promises (admit w it s) = promises s @ [nextId s]"
  "nextId (admit w it s) = Suc (nextId s)"
  "admitted (admit w it s) = admitted s @ [it]"
  by (simp_all add: admit_gate)

lemma retry_loop_rule:
  "retry_loop q acc s = (r, ris, s') \<Longrightarrow> P s \<Longrightarrow>
   (\<And>s q. P s \<Longrightarrow> P (s\<lparr>retryQueue := q\<rparr>)) \<Longrightarrow>
   (\<And>s x. P s \<Longrightarrow> P (s\<lparr>sink := x\<rparr>)) \<Longrightarrow>
   (\<And>s. P s \<Longrightarrow> P (s\<lparr>promises := [], processing := False\<rparr>)) \<Longrightarrow> P s'"
proof (induction q arbitrary: acc s)
  case Nil then show ?case by simp
next
  case (Cons it q)
  have p1: "P (s\<lparr>retryQueue := rev q\<rparr>)" by (rule Cons.prems(3)[OF Cons.prems(2)])
  show ?case
  proof (cases "retries it > 0")
    case True
    with Cons.prems(1)
    have "retry_loop q (acc @ [it\<lparr>retries := retries it - 1\<rparr>]) (s\<lparr>retryQueue := rev q\<rparr>) = (r, ris, s')"
      by (simp add: Let_def)
    from Cons.IH[OF this p1 Cons.prems(3,4,5)] show ?thesis by simp
  next
    case False
    show ?thesis
    proof (cases "onError s")
      case True
      let ?x = "sink s @ [LimiterRetryError process_stack ''Retry limit exceeded'' (error it)]"
      from True False Cons.prems(1)
      have "retry_loop q acc (s\<lparr>retryQueue := rev q, sink := ?x\<rparr>) = (r, ris, s')"
        by (simp add: Let_def)
      from Cons.IH[OF this Cons.prems(4)[OF p1] Cons.prems(3,4,5)] show ?thesis by simp
    next
      case oe: False
      with False Cons.prems(1)
      have "s' = s\<lparr>retryQueue := rev q, promises := [], retryQueue := [], processing := False\<rparr>"
        by (simp add: Let_def)
      then have "s' = (s\<lparr>promises := [], processing := False\<rparr>)\<lparr>retryQueue := []\<rparr>" by simp
      then show ?thesis using Cons.prems(3)[OF Cons.prems(5)[OF Cons.prems(2)]] by simp
    qed
  qed
qed

lemma retry_loop_keeps:
  assumes "retry_loop q acc s = (r, ris, s')"
  shows "limit s' = limit s" "maxRetry s' = maxRetry s" "rps s' = rps s" "onError s' = onError s"
    "nextId s' = nextId s" "admitted s' = admitted s" "promisesCount s' = promisesCount s"
    "inflight s' = inflight s" "samples s' = samples s" "calls s' = calls s"
    "rejected s' = rejected s" "handled s' = handled s" "now s' = now s" "tick s' = tick s"
proof -
  note R = retry_loop_rule[OF assms]
  show "limit s' = limit s" by (rule R[where P="\<lambda>x. limit x = limit s"]) simp_all
  show "maxRetry s' = maxRetry s" by (rule R[where P="\<lambda>x. maxRetry x = maxRetry s"]) simp_all
  show "rps s' = rps s" by (rule R[where P="\<lambda>x. rps x = rps s"]) simp_all
  show "onError s' = onError s" by (rule R[where P="\<lambda>x. onError x = onError s"]) simp_all
  show "nextId s' = nextId s" by (rule R[where P="\<lambda>x. nextId x = nextId s"]) simp_all
  show "admitted s' = admitted s" by (rule R[where P="\<lambda>x. admitted x = admitted s"]) simp_all
  show "promisesCount s' = promisesCount s"
    by (rule R[where P="\<lambda>x. promisesCount x = promisesCount s"]) simp_all
  show "inflight s' = inflight s" by (rule R[where P="\<lambda>x. inflight x = inflight s"]) simp_all
  show "samples s' = samples s" by (rule R[where P="\<lambda>x. samples x = samples s"]) simp_all
  show "calls s' = calls s" by (rule R[where P="\<lambda>x. calls x = calls s"]) simp_all
  show "rejected s' = rejected s" by (rule R[where P="\<lambda>x. rejected x = rejected s"]) simp_all
  show "handled s' = handled s" by (rule R[where P="\<lambda>x. handled x = handled s"]) simp_all
  show "now s' = now s" by (rule R[where P="\<lambda>x. now x = now s"]) simp_all
  show "tick s' = tick s" by (rule R[where P="\<lambda>x. tick x = tick s"]) simp_all
qed

section \<open>The three kinds of event\<close>

lemma fire_elim [consumes 1, case_names Settle Park Invoke]:
  assumes "inflight s \<noteq> []"
  obtains
    e res s1 where "earliest (inflight s) = Some e" "e \<in> set (inflight s)" "ephase e = Run res"
      "s1 = s\<lparr>now := max (now s) (etime e), inflight := remove1 e (inflight s)\<rparr>"
      "fire w s = settle e res s1"
  | e r s1 where "earliest (inflight s) = Some e" "e \<in> set (inflight s)" "ephase e = Gate"
      "s1 = s\<lparr>now := max (now s) (etime e), inflight := remove1 e (inflight s)\<rparr>"
      "rps s = Some r" "0 < r" "(now s1 - tick s) * int r < 1000"
      "fire w s = park (epid e) (eitem e) (tick s + period r) s1"
  | e s1 t where "earliest (inflight s) = Some e" "e \<in> set (inflight s)" "ephase e = Gate"
      "s1 = s\<lparr>now := max (now s) (etime e), inflight := remove1 e (inflight s)\<rparr>"
      "fire w s = invoke w (epid e) (eitem e) (s1\<lparr>tick := t\<rparr>)"
proof -
  obtain e where e: "earliest (inflight s) = Some e"
    using assms earliest_None by (cases "earliest (inflight s)") auto
  have mem: "e \<in> set (inflight s)" using e by (rule earliest_mem)
  define s1 where "s1 = s\<lparr>now := max (now s) (etime e), inflight := remove1 e (inflight s)\<rparr>"
  show thesis
  proof (cases "ephase e")
    case (Run res)
    from fire_Run[OF e Run] have "fire w s = settle e res s1" by (simp add: s1_def)
    with e mem Run s1_def show ?thesis by (rule that(1))
  next
    case Gate
    have f: "fire w s = limitRps_check w (epid e) (eitem e) s1"
      using fire_Gate[OF e Gate] by (simp add: s1_def)
    have t: "tick s1 = tick s" "rps s1 = rps s" by (simp_all add: s1_def)
    from limitRps_check_cases[of s1 w "epid e" "eitem e"]
    consider r where "rps s = Some r" "0 < r" "(now s1 - tick s) * int r < 1000"
        "fire w s = park (epid e) (eitem e) (tick s + period r) s1"
      | "fire w s = invoke w (epid e) (eitem e) s1"
      | "fire w s = invoke w (epid e) (eitem e) (s1\<lparr>tick := now s1\<rparr>)"
      unfolding f t by blast
    then show ?thesis
    proof cases
      case (1 r)
      with e mem Gate s1_def show ?thesis by (intro that(2)[of e s1 r])
    next
      case 2
      then have "fire w s = invoke w (epid e) (eitem e) (s1\<lparr>tick := tick s1\<rparr>)" by simp
      with e mem Gate s1_def show ?thesis by (intro that(3)[of e s1 "tick s1"])
    next
      case 3
      with e mem Gate s1_def show ?thesis by (intro that(3)[of e s1 "now s1"])
    qed
  qed
qed

section \<open>Properties that every step keeps\<close>

definition stable :: "world \<Rightarrow> (state \<Rightarrow> bool) \<Rightarrow> bool" where
  "stable w P \<longleftrightarrow>
     (\<forall>s. P s \<longrightarrow> P (fire w s)) \<and>
     (\<forall>s it. P s \<longrightarrow> it \<noteq> Falsy \<longrightarrow> P (admit w it s)) \<and>
     (\<forall>s f. P s \<longrightarrow> P (s\<lparr>processing := f\<rparr>)) \<and>
     (\<forall>s ps. P s \<longrightarrow> P (s\<lparr>promises := ps\<rparr>)) \<and>
     (\<forall>s h. P s \<longrightarrow> P (s\<lparr>handled := h\<rparr>)) \<and>
     (\<forall>s q. P s \<longrightarrow> P (s\<lparr>retryQueue := q\<rparr>)) \<and>
     (\<forall>s x. P s \<longrightarrow> P (s\<lparr>sink := x\<rparr>))"

lemma stableI:
  assumes "\<And>s. P s \<Longrightarrow> P (fire w s)"
    and "\<And>s it. P s \<Longrightarrow> it \<noteq> Falsy \<Longrightarrow> P (admit w it s)"
    and "\<And>s f. P s \<Longrightarrow> P (s\<lparr>processing := f\<rparr>)"
    and "\<And>s ps. P s \<Longrightarrow> P (s\<lparr>promises := ps\<rparr>)"
    and "\<And>s h. P s \<Longrightarrow> P (s\<lparr>handled := h\<rparr>)"
    and "\<And>s q. P s \<Longrightarrow> P (s\<lparr>retryQueue := q\<rparr>)"
    and "\<And>s x. P s \<Longrightarrow> P (s\<lparr>sink := x\<rparr>)"
  shows "stable w P"
  unfolding stable_def using assms by (intro conjI allI impI) assumption+

lemma stable_await_all: "stable w P \<Longrightarrow> P s \<Longrightarrow> P (await_all w ps s)"
  by (rule await_all_rule) (auto simp: stable_def)

lemma stable_quiesce: "stable w P \<Longrightarrow> P s \<Longrightarrow> P (quiesce w s)"
  by (rule quiesce_rule) (auto simp: stable_def)

lemma stable_attach: "stable w P \<Longrightarrow> P s \<Longrightarrow> P (fold attach_catch ps s)"
proof (induction ps arbitrary: s)
  case Nil then show ?case by simp
next
  case (Cons p ps)
  have "P (attach_catch p s)"
    using Cons.prems by (auto simp: attach_catch_def stable_def split: option.splits)
  with Cons show ?case by simp
qed

lemma stable_execute:
  assumes "stable w P" "P s" "execute w s = (r, s')"
  shows "P s'"
proof -
  have 1: "P (await_all w (promises s) s)" using assms(1,2) by (rule stable_await_all)
  have 2: "\<And>x. P x \<Longrightarrow> P (x\<lparr>promises := []\<rparr>)"
    "\<And>x. P x \<Longrightarrow> P (x\<lparr>promises := [], processing := False\<rparr>)"
    using assms(1) by (auto simp: stable_def)
  show ?thesis using assms(3) 1 2 stable_attach[OF assms(1) 1]
    by (auto simp: execute_def Let_def split: option.splits if_splits prod.splits)
qed

lemma stable_admit_loop:
  "stable w P \<Longrightarrow> P s \<Longrightarrow> admit_loop w xs s = (r, s') \<Longrightarrow> P s'"
proof (induction xs arbitrary: s)
  case Nil then show ?case by simp
next
  case (Cons it rest)
  show ?case
  proof (cases "it = Falsy")
    case True with Cons.prems show ?thesis by simp
  next
    case False
    obtain r1 s1 where ex: "(if promisesCount s \<ge> limit s then execute w s else (None, s)) = (r1, s1)"
      by (cases "(if promisesCount s \<ge> limit s then execute w s else (None, s))") auto
    then have p1: "P s1"
      using stable_execute[OF Cons.prems(1,2), of r1 s1] Cons.prems(2) by (auto split: if_splits)
    show ?thesis
    proof (cases r1)
      case (Some err)
      with Cons.prems False ex p1 show ?thesis by auto
    next
      case None
      with Cons.prems False ex have "admit_loop w rest (admit w it s1) = (r, s')" by simp
      moreover have "P (admit w it s1)" using Cons.prems(1) p1 False by (auto simp: stable_def)
      ultimately show ?thesis using Cons.IH Cons.prems(1) by blast
    qed
  qed
qed

lemma stable_retry_loop:
  assumes "stable w P" "P s" "retry_loop q acc s = (r, ris, s')"
  shows "P s'"
proof (rule retry_loop_rule[OF assms(3), of P, OF assms(2)])
  show "\<And>s q. P s \<Longrightarrow> P (s\<lparr>retryQueue := q\<rparr>)" using assms(1) by (auto simp: stable_def)
  show "\<And>s x. P s \<Longrightarrow> P (s\<lparr>sink := x\<rparr>)" using assms(1) by (auto simp: stable_def)
  show "\<And>s. P s \<Longrightarrow> P (s\<lparr>promises := [], processing := False\<rparr>)"
    using assms(1) by (auto simp: stable_def)
qed

lemma stable_process_round:
  assumes "stable w P" "P s" "process_round w xs s = (r, ris, s')"
  shows "P s'"
proof -
  obtain r1 s1 where al: "admit_loop w (rev xs) (s\<lparr>processing := True\<rparr>) = (r1, s1)"
    by (cases "admit_loop w (rev xs) (s\<lparr>processing := True\<rparr>)") auto
  have "P (s\<lparr>processing := True\<rparr>)" using assms(1,2) by (auto simp: stable_def)
  from stable_admit_loop[OF assms(1) this al] have p1: "P s1" .
  obtain r2 s2 where ex: "(if promises s1 \<noteq> [] then execute w s1 else (None, s1)) = (r2, s2)"
    by (cases "(if promises s1 \<noteq> [] then execute w s1 else (None, s1))") auto
  then have p2: "P s2"
    using stable_execute[OF assms(1) p1, of r2 s2] p1 by (auto split: if_splits)
  show ?thesis
  proof (cases "r1 = None \<and> r2 = None \<and> retryQueue s2 \<noteq> []")
    case True
    with assms(3) al ex have "retry_loop (rev (retryQueue s2)) [] s2 = (r, ris, s')"
      by (auto simp: process_round_def)
    from stable_retry_loop[OF assms(1) p2 this] show ?thesis .
  next
    case False
    with assms(3) al ex p1 p2 show ?thesis
      by (auto simp: process_round_def split: option.splits)
  qed
qed

lemma stable_process: "stable w P \<Longrightarrow> P s \<Longrightarrow> P (snd (process w xs s))"
proof (induction w xs s rule: process_induct)
  case (round w xs s)
  obtain r ris s1 where pr: "process_round w xs s = (r, ris, s1)"
    by (cases "process_round w xs s") auto
  from stable_process_round[OF round.prems pr] have p1: "P s1" .
  have fl: "\<And>x. P x \<Longrightarrow> P (x\<lparr>processing := False\<rparr>)"
    using round.prems(1) by (auto simp: stable_def)
  show ?case
  proof (cases r)
    case (Some err)
    with pr p1 show ?thesis by (simp add: process_throw)
  next
    case None
    show ?thesis
    proof (cases "ris = []")
      case True
      with pr None p1 fl show ?thesis by (simp add: process_done)
    next
      case False
      from round.IH[OF _ False round.prems(1) p1] pr None
      have "P (snd (process w (map Retry ris) s1))" by simp
      with pr None False fl show ?thesis
        by (auto simp: process_again split: prod.splits option.splits)
    qed
  qed
qed

section \<open>The gate at admission and at wake-up\<close>

lemma gate_admit:
  assumes "rps s = Some r" and "0 < r"
  shows "calls (admit w it s) = calls s \<or>
          calls (admit w it s) = calls s @ [item_callback it] \<and>
          1000 \<le> (now s - tick s) * int r \<and> tick (admit w it s) = now s"
  using assms by (simp add: admit_gate limitRps_def limitRps_check_def Let_def)

lemma gate_fire:
  assumes "rps s = Some r" and "0 < r"
  shows "calls (fire w s) = calls s \<or>
          1000 \<le> (now (fire w s) - tick s) * int r \<and> tick (fire w s) = now (fire w s)"
proof (cases "earliest (inflight s)")
  case None then show ?thesis by (simp add: fire_def)
next
  case (Some e)
  show ?thesis
  proof (cases "ephase e")
    case Gate
    show ?thesis using assms
      by (simp add: fire_Gate[OF Some Gate] limitRps_check_def Let_def)
  next
    case (Run res)
    show ?thesis by (simp add: fire_Run[OF Some Run])
  qed
qed

lemma gate_sleeps_again:
  assumes "rps s = Some r" and "0 < r"
    and "earliest (inflight s) = Some e" and "ephase e = Gate"
    and "(max (now s) (etime e) - tick s) * int r < 1000"
  shows "calls (fire w s) = calls s \<and>
         inflight (fire w s) = remove1 e (inflight s) @
           [\<lparr>epid = epid e, eitem = eitem e, etime = tick s + period r, ephase = Gate\<rparr>]"
  using assms by (simp add: fire_Gate limitRps_check_def Let_def)

lemma no_gate_without_rps:
  "rps s = None \<or> rps s = Some 0 \<Longrightarrow>
   calls (admit w it s) = calls s @ [item_callback it] \<and> tick (admit w it s) = tick s \<and>
   inflight (admit w it s) = inflight s @
     [\<lparr>epid = nextId s, eitem = it, etime = now s + int (fst (outcome w s it)),
       ephase = Run (snd (outcome w s it))\<rparr>]"
  by (auto simp: admit_gate limitRps_def outcome_def)

section \<open>The order of admission\<close>

definition truthy_prefix :: "item list \<Rightarrow> item list" where
  "truthy_prefix xs = takeWhile (\<lambda>it. it \<noteq> Falsy) xs"

lemma admit_loop_admitted:
  "admit_loop w xs s = (r, s') \<Longrightarrow>
   \<exists>n\<le>length (truthy_prefix xs). admitted s' = admitted s @ take n (truthy_prefix xs) \<and>
      (r = None \<longrightarrow> n = length (truthy_prefix xs))"
proof (induction xs arbitrary: s)
  case Nil then show ?case by (simp add: truthy_prefix_def)
next
  case (Cons it rest)
  show ?case
  proof (cases "it = Falsy")
    case True with Cons.prems show ?thesis by (simp add: truthy_prefix_def)
  next
    case False
    obtain r1 s1 where ex: "(if promisesCount s \<ge> limit s then execute w s else (None, s)) = (r1, s1)"
      by (cases "(if promisesCount s \<ge> limit s then execute w s else (None, s))") auto
    then have a1: "admitted s1 = admitted s"
      using execute_keeps(6)[of w s r1 s1] by (auto split: if_splits)
    show ?thesis
    proof (cases r1)
      case (Some err)
      with Cons.prems False ex have "s' = s1" "r = Some err" by auto
      with a1 show ?thesis by (intro exI[of _ 0]) simp
    next
      case None
      with Cons.prems False ex have "admit_loop w rest (admit w it s1) = (r, s')" by simp
      from Cons.IH[OF this] obtain n where n: "n \<le> length (truthy_prefix rest)"
        "admitted s' = admitted (admit w it s1) @ take n (truthy_prefix rest)"
        "r = None \<longrightarrow> n = length (truthy_prefix rest)" by blast
      then show ?thesis using False a1
        by (intro exI[of _ "Suc n"]) (simp add: truthy_prefix_def)
    qed
  qed
qed

lemma process_round_admitted:
  assumes "process_round w xs s = (r, ris, s')"
  shows "\<exists>n\<le>length (truthy_prefix (rev xs)).
           admitted s' = admitted s @ take n (truthy_prefix (rev xs)) \<and>
           (n < length (truthy_prefix (rev xs)) \<longrightarrow> r \<noteq> None)"
proof -
  obtain r1 s1 where al: "admit_loop w (rev xs) (s\<lparr>processing := True\<rparr>) = (r1, s1)"
    by (cases "admit_loop w (rev xs) (s\<lparr>processing := True\<rparr>)") auto
  from admit_loop_admitted[OF al] obtain n where n: "n \<le> length (truthy_prefix (rev xs))"
    "admitted s1 = admitted s @ take n (truthy_prefix (rev xs))"
    "r1 = None \<longrightarrow> n = length (truthy_prefix (rev xs))" by auto
  show ?thesis
  proof (cases r1)
    case (Some err)
    with assms al have "s' = s1" "r = Some err" by (auto simp: process_round_def)
    with n show ?thesis by auto
  next
    case None
    obtain r2 s2 where ex: "(if promises s1 \<noteq> [] then execute w s1 else (None, s1)) = (r2, s2)"
      by (cases "(if promises s1 \<noteq> [] then execute w s1 else (None, s1))") auto
    then have a2: "admitted s2 = admitted s1"
      using execute_keeps(6)[of w s1 r2 s2] by (auto split: if_splits)
    have "admitted s' = admitted s2"
    proof (cases r2)
      case (Some err)
      with assms al None ex show ?thesis by (auto simp: process_round_def)
    next
      case r2: None
      show ?thesis
      proof (cases "retryQueue s2 = []")
        case True
        with assms al None ex r2 show ?thesis by (auto simp: process_round_def)
      next
        case False
        with assms al None ex r2
        have "retry_loop (rev (retryQueue s2)) [] s2 = (r, ris, s')"
          by (auto simp: process_round_def)
        then show ?thesis by (rule retry_loop_keeps)
      qed
    qed
    with a2 n None show ?thesis by auto
  qed
qed

lemma process_admitted:
  "process w xs s = (res, s') \<Longrightarrow>
   \<exists>n zs. n \<le> length (truthy_prefix (rev xs)) \<and>
     admitted s' = admitted s @ take n (truthy_prefix (rev xs)) @ zs \<and>
     (\<forall>z\<in>set zs. \<exists>ri. z = Retry ri) \<and>
     (n < length (truthy_prefix (rev xs)) \<longrightarrow> zs = [] \<and> res \<noteq> None)"
proof (induction w xs s arbitrary: res s' rule: process_induct)
  case (round w xs s)
  let ?ys = "truthy_prefix (rev xs)"
  obtain r ris s1 where pr: "process_round w xs s = (r, ris, s1)"
    by (cases "process_round w xs s") auto
  from process_round_admitted[OF pr] obtain n where
    n: "n \<le> length ?ys" "admitted s1 = admitted s @ take n ?ys" "n < length ?ys \<longrightarrow> r \<noteq> None"
    by blast
  show ?case
  proof (cases r)
    case (Some err)
    with pr round.prems have "s' = s1" "res = Some err" by (simp_all add: process_throw)
    with n show ?thesis by (intro exI[of _ n] exI[of _ "[]"]) simp
  next
    case None
    with n have full: "n = length ?ys" by auto
    show ?thesis
    proof (cases "ris = []")
      case True
      with pr None round.prems have "s' = s1\<lparr>processing := False\<rparr>" by (simp add: process_done)
      with n full show ?thesis by (intro exI[of _ n] exI[of _ "[]"]) simp
    next
      case False
      obtain res2 s2 where p2: "process w (map Retry ris) s1 = (res2, s2)"
        by (cases "process w (map Retry ris) s1") auto
      from round.IH[OF _ False p2] pr None obtain m zs where
        z: "admitted s2 = admitted s1 @ take m (truthy_prefix (rev (map Retry ris))) @ zs"
           "\<forall>z\<in>set zs. \<exists>ri. z = Retry ri" by blast
      have a: "admitted s' = admitted s2"
        using pr None False p2 round.prems by (auto simp: process_again split: option.splits)
      have "\<forall>z\<in>set (take m (truthy_prefix (rev (map Retry ris)))). \<exists>ri. z = Retry ri"
        using set_take_subset[of m "truthy_prefix (rev (map Retry ris))"]
          set_takeWhileD[of _ "\<lambda>it. it \<noteq> Falsy" "rev (map Retry ris)"]
        by (auto simp: truthy_prefix_def)
      with z(2) have "\<forall>z\<in>set (take m (truthy_prefix (rev (map Retry ris))) @ zs). \<exists>ri. z = Retry ri"
        by auto
      with a z(1) n full show ?thesis
        by (intro exI[of _ n] exI[of _ "take m (truthy_prefix (rev (map Retry ris))) @ zs"]) simp
    qed
  qed
qed

definition ungated :: "state \<Rightarrow> bool" where
  "ungated s \<longleftrightarrow> (rps s = None \<or> rps s = Some 0) \<and> list_all (\<lambda>e. ephase e \<noteq> Gate) (inflight s)"

definition invoked_at_admission :: "state \<Rightarrow> state \<Rightarrow> bool" where
  "invoked_at_admission s x \<longleftrightarrow> ungated x \<and>
     (\<exists>zs. admitted x = admitted s @ zs \<and> calls x = calls s @ map item_callback zs)"

lemma invoked_fire: "invoked_at_admission s x \<Longrightarrow> invoked_at_admission s (fire w x)"
proof (cases "inflight x = []")
  case True
  assume "invoked_at_admission s x"
  with True show ?thesis by (simp add: fire_None)
next
  case False
  assume a: "invoked_at_admission s x"
  from False show ?thesis
  proof (cases rule: fire_elim[where w=w])
    case (Settle e res s1)
    with a show ?thesis
      by (auto simp: invoked_at_admission_def ungated_def list_all_iff dest: notin_set_remove1)
  next
    case (Park e r s1)
    with a show ?thesis by (auto simp: invoked_at_admission_def ungated_def list_all_iff)
  next
    case (Invoke e s1 t)
    with a show ?thesis by (auto simp: invoked_at_admission_def ungated_def list_all_iff)
  qed
qed

lemma invoked_admit: "invoked_at_admission s x \<Longrightarrow> invoked_at_admission s (admit w it x)"
proof -
  assume a: "invoked_at_admission s x"
  then have "rps x = None \<or> rps x = Some 0" by (simp add: invoked_at_admission_def ungated_def)
  from no_gate_without_rps[OF this, of w it] a
  show ?thesis by (auto simp: invoked_at_admission_def ungated_def)
qed

lemma invoked_fields:
  "invoked_at_admission s x \<Longrightarrow> invoked_at_admission s (x\<lparr>processing := f\<rparr>)"
  "invoked_at_admission s x \<Longrightarrow> invoked_at_admission s (x\<lparr>promises := ps\<rparr>)"
  "invoked_at_admission s x \<Longrightarrow> invoked_at_admission s (x\<lparr>handled := h\<rparr>)"
  "invoked_at_admission s x \<Longrightarrow> invoked_at_admission s (x\<lparr>retryQueue := q\<rparr>)"
  "invoked_at_admission s x \<Longrightarrow> invoked_at_admission s (x\<lparr>sink := y\<rparr>)"
  by (simp_all add: invoked_at_admission_def ungated_def)

lemma stable_invoked: "stable w (invoked_at_admission s)"
proof (rule stableI)
  show "\<And>x. invoked_at_admission s x \<Longrightarrow> invoked_at_admission s (fire w x)"
    by (rule invoked_fire)
  show "\<And>x it. invoked_at_admission s x \<Longrightarrow> it \<noteq> Falsy \<Longrightarrow> invoked_at_admission s (admit w it x)"
    by (rule invoked_admit)
qed (simp_all add: invoked_at_admission_def ungated_def)


section \<open>Well-formed runtimes\<close>

text \<open>
  The pending wrappers have distinct identities, all issued already; the count is their
  number; a rejected promise is not pending.
\<close>

definition pids :: "state \<Rightarrow> nat list" where
  "pids s = map epid (inflight s)"

definition wf_rt :: "state \<Rightarrow> bool" where
  "wf_rt s \<longleftrightarrow>
     promisesCount s = int (length (inflight s)) \<and> distinct (pids s) \<and>
     list_all (\<lambda>p. p < nextId s) (pids s) \<and>
     list_all (\<lambda>x. fst x < nextId s \<and> fst x \<notin> set (pids s)) (rejected s)"

lemma map_remove1_distinct:
  "distinct (map f xs) \<Longrightarrow> e \<in> set xs \<Longrightarrow> map f (remove1 e xs) = remove1 (f e) (map f xs)"
proof (induction xs)
  case Nil then show ?case by simp
next
  case (Cons a xs)
  show ?case
  proof (cases "e = a")
    case True then show ?thesis by simp
  next
    case False
    with Cons.prems have m: "e \<in> set xs" by simp
    then have "f e \<in> f ` set xs" by (rule imageI)
    with Cons.prems have "f e \<noteq> f a" by auto
    with Cons False m show ?thesis by simp
  qed
qed

lemma pids_simps [simp]:
  "pids (s\<lparr>processing := f\<rparr>) = pids s"
  "pids (s\<lparr>promises := ps\<rparr>) = pids s"
  "pids (s\<lparr>handled := h\<rparr>) = pids s"
  "pids (s\<lparr>retryQueue := q\<rparr>) = pids s"
  "pids (s\<lparr>sink := x\<rparr>) = pids s"
  by (simp_all add: pids_def)

lemma fire_effect [consumes 2, case_names Settled Moved]:
  assumes "inflight s \<noteq> []" "distinct (pids s)"
  obtains p where "p \<in> set (pids s)" "pids (fire w s) = remove1 p (pids s)"
      "length (inflight (fire w s)) = length (inflight s) - 1"
      "promisesCount (fire w s) = promisesCount s - 1"
      "samples (fire w s) = samples s @ [promisesCount s - 1]"
      "rejected (fire w s) = rejected s \<or> (\<exists>err. rejected (fire w s) = rejected s @ [(p, err)])"
  | p where "p \<in> set (pids s)" "pids (fire w s) = remove1 p (pids s) @ [p]"
      "length (inflight (fire w s)) = length (inflight s)"
      "promisesCount (fire w s) = promisesCount s" "samples (fire w s) = samples s"
      "rejected (fire w s) = rejected s"
proof -
  have len: "0 < length (inflight s)" using assms(1) by simp
  from assms(1) show thesis
  proof (cases rule: fire_elim[where w=w])
  case (Settle e res s1)
  have p: "pids s1 = remove1 (epid e) (pids s)" "length (inflight s1) = length (inflight s) - 1"
    "promisesCount s1 = promisesCount s" "samples s1 = samples s" "rejected s1 = rejected s"
    using Settle(2,4) assms(2) by (simp_all add: pids_def map_remove1_distinct length_remove1)
  have "rejected (fire w s) = rejected s \<or>
        (\<exists>err. rejected (fire w s) = rejected s @ [(epid e, err)])"
    unfolding Settle(5) using p(5)
    by (cases res; cases "maxRetry s1 = 0") simp_all
  moreover have "pids (fire w s) = remove1 (epid e) (pids s)"
    "length (inflight (fire w s)) = length (inflight s) - 1"
    using p by (simp_all add: Settle(5) pids_def)
  moreover have "epid e \<in> set (pids s)" using Settle(2) by (simp add: pids_def)
  ultimately show ?thesis using p by (intro that(1)[of "epid e"]) (simp_all add: Settle(5))
next
  case (Park e r s1)
  have "epid e \<in> set (pids s)" using Park(2) by (simp add: pids_def)
  moreover have "pids (fire w s) = remove1 (epid e) (pids s) @ [epid e]"
    using Park(2,4) assms(2) by (simp add: Park(8) pids_def map_remove1_distinct)
  moreover have "length (inflight (fire w s)) = length (inflight s)"
    using Park(2,4) len by (simp add: Park(8) length_remove1)
  ultimately show ?thesis using Park(4) by (intro that(2)[of "epid e"]) (simp_all add: Park(8))
next
  case (Invoke e s1 t)
  have "epid e \<in> set (pids s)" using Invoke(2) by (simp add: pids_def)
  moreover have "pids (fire w s) = remove1 (epid e) (pids s) @ [epid e]"
    using Invoke(2,4) assms(2) by (simp add: Invoke(5) pids_def map_remove1_distinct)
  moreover have "length (inflight (fire w s)) = length (inflight s)"
    using Invoke(2,4) len by (simp add: Invoke(5) length_remove1)
  ultimately show ?thesis using Invoke(4) by (intro that(2)[of "epid e"]) (simp_all add: Invoke(5))
  qed
qed

lemma wf_rt_fire: "wf_rt s \<Longrightarrow> wf_rt (fire w s)"
proof (cases "inflight s = []")
  case True
  assume "wf_rt s" with True show ?thesis by (simp add: fire_None)
next
  case False
  assume wf: "wf_rt s"
  then have d: "distinct (pids s)" by (simp add: wf_rt_def)
  have len: "int (length (inflight s) - 1) = int (length (inflight s)) - 1"
    using False by (cases "inflight s") simp_all
  from False d show ?thesis
  proof (cases rule: fire_effect[where w=w])
    case (Settled p)
    have "p \<notin> set (remove1 p (pids s))" using d by simp
    moreover have "set (remove1 p (pids s)) \<subseteq> set (pids s)" by (rule set_remove1_subset)
    ultimately show ?thesis using wf Settled len d
      unfolding wf_rt_def list_all_iff by (auto simp: subset_iff)
  next
    case (Moved p)
    have "set (remove1 p (pids s) @ [p]) = set (pids s)" using Moved(1) d by auto
    moreover have "distinct (remove1 p (pids s) @ [p])" using d by simp
    ultimately show ?thesis using wf Moved unfolding wf_rt_def list_all_iff by simp
  qed
qed

lemma pids_admit: "pids (admit w it s) = pids s @ [nextId s]"
  using limitRps_cases[of "(count_up s)\<lparr>nextId := Suc (nextId s)\<rparr>" w "nextId s" it]
  by (auto simp: admit_gate pids_def)

lemma length_inflight_admit: "length (inflight (admit w it s)) = Suc (length (inflight s))"
  using arg_cong[OF pids_admit[of w it s], of length] by (simp add: pids_def)

lemma wf_rt_admit: "wf_rt s \<Longrightarrow> wf_rt (admit w it s)"
  unfolding wf_rt_def list_all_iff
  by (auto simp: pids_admit length_inflight_admit)

lemma stable_wf_rt: "stable w wf_rt"
proof (rule stableI)
  show "\<And>s. wf_rt s \<Longrightarrow> wf_rt (fire w s)" by (rule wf_rt_fire)
  show "\<And>s it. wf_rt s \<Longrightarrow> it \<noteq> Falsy \<Longrightarrow> wf_rt (admit w it s)" by (rule wf_rt_admit)
qed (simp_all add: wf_rt_def)

lemma wf_rt_Limiter: "wf_rt (Limiter l r m oe t)"
  by (simp add: wf_rt_def Limiter_def pids_def)

section \<open>The concurrency cap\<close>

definition bounded :: "state \<Rightarrow> bool" where
  "bounded s \<longleftrightarrow> list_all (\<lambda>c. c \<le> limit s) (samples s)"

text \<open>During a wait the pending wrappers only get fewer, and the count only falls.\<close>

definition shrunk :: "state \<Rightarrow> state \<Rightarrow> bool" where
  "shrunk s x \<longleftrightarrow> wf_rt x \<and> (bounded s \<longrightarrow> bounded x) \<and> limit x = limit s \<and>
     promisesCount x \<le> promisesCount s \<and> set (pids x) \<subseteq> set (pids s) \<and>
     (promisesCount x = promisesCount s \<longrightarrow> set (pids x) = set (pids s))"

lemma shrunk_fire:
  assumes "shrunk s x" "promisesCount s \<le> limit s"
  shows "shrunk s (fire w x)"
proof (cases "inflight x = []")
  case True with assms show ?thesis by (simp add: fire_None)
next
  case False
  from assms have wf: "wf_rt x" by (simp add: shrunk_def)
  then have d: "distinct (pids x)" by (simp add: wf_rt_def)
  have wf': "wf_rt (fire w x)" using wf by (rule wf_rt_fire)
  from False d show ?thesis
  proof (cases rule: fire_effect[where w=w])
    case (Settled p)
    have "set (remove1 p (pids x)) \<subseteq> set (pids x)" by (rule set_remove1_subset)
    with Settled assms wf' show ?thesis
      by (auto simp: shrunk_def bounded_def)
  next
    case (Moved p)
    have "set (remove1 p (pids x) @ [p]) = set (pids x)" using Moved(1) d by auto
    with Moved assms wf' show ?thesis by (auto simp: shrunk_def bounded_def)
  qed
qed

lemma shrunk_await_all:
  assumes "wf_rt s" "promisesCount s \<le> limit s"
  shows "shrunk s (await_all w ps s)"
proof (rule await_all_rule)
  show "shrunk s s" using assms(1) by (simp add: shrunk_def)
  show "\<And>x. shrunk s x \<Longrightarrow> inflight x \<noteq> [] \<Longrightarrow> shrunk s (fire w x)"
    by (rule shrunk_fire[OF _ assms(2)])
qed

lemma execute_fields:
  assumes "execute w s = (r, s')"
  shows "promisesCount s' = promisesCount (await_all w (promises s) s)"
    "samples s' = samples (await_all w (promises s) s)"
    "inflight s' = inflight (await_all w (promises s) s)"
    "rejected s' = rejected (await_all w (promises s) s)"
    "calls s' = calls (await_all w (promises s) s)"
    "now s' = now (await_all w (promises s) s)"
    "tick s' = tick (await_all w (promises s) s)"
    "retryQueue s' = retryQueue (await_all w (promises s) s)"
  using assms
  by (auto simp: execute_def Let_def split: option.splits if_splits prod.splits)

lemma execute_cap:
  assumes "wf_rt s" "bounded s" "promisesCount s \<le> limit s" "set (promises s) \<subseteq> set (pids s)"
    and ex: "execute w s = (r, s')"
  shows "wf_rt s'" "bounded s'" "promises s' = []" "promisesCount s' \<le> promisesCount s"
    "promises s \<noteq> [] \<Longrightarrow> promisesCount s' < promisesCount s"
proof -
  let ?s1 = "await_all w (promises s) s"
  have sh: "shrunk s ?s1" using assms(1,3) by (rule shrunk_await_all)
  show "wf_rt s'" using stable_wf_rt assms(1) ex by (rule stable_execute)
  show "bounded s'" using sh assms(2) execute_fields(2)[OF ex] execute_keeps(1)[OF ex]
    by (simp add: shrunk_def bounded_def)
  show "promises s' = []" using ex by (rule execute_keeps)
  show "promisesCount s' \<le> promisesCount s"
    using sh execute_fields(1)[OF ex] by (simp add: shrunk_def)
  show "promisesCount s' < promisesCount s" if ne: "promises s \<noteq> []"
  proof -
    have "\<exists>p\<in>set (pids s). p \<notin> set (pids ?s1)"
    proof (cases "inflight ?s1 = []")
      case True
      from ne obtain p where "p \<in> set (promises s)" by (cases "promises s") auto
      with assms(4) True show ?thesis by (auto simp: pids_def)
    next
      case False
      with await_all_post[of w "promises s" s] have st: "all_settled (promises s) ?s1" by simp
      show ?thesis
      proof (cases "list_ex (is_rejected ?s1) (promises s)")
        case True
        then obtain p where p: "p \<in> set (promises s)" "is_rejected ?s1 p"
          by (auto simp: list_ex_iff)
        from sh have "wf_rt ?s1" by (simp add: shrunk_def)
        with p(2) have "p \<notin> set (pids ?s1)"
          by (auto simp: wf_rt_def list_all_iff is_rejected_def)
        with p(1) assms(4) show ?thesis by auto
      next
        case False
        with st have np: "\<not> list_ex (is_pending ?s1) (promises s)" by (simp add: all_settled_def)
        from ne obtain p where p: "p \<in> set (promises s)" by (cases "promises s") auto
        with np have "p \<notin> set (pids ?s1)" by (auto simp: list_ex_iff is_pending_def pids_def)
        with p assms(4) show ?thesis by auto
      qed
    qed
    then have "promisesCount ?s1 \<noteq> promisesCount s" using sh by (auto simp: shrunk_def)
    then show ?thesis using sh execute_fields(1)[OF ex] by (simp add: shrunk_def)
  qed
qed

text \<open>What holds at the head of the admission loop.\<close>

definition capped :: "state \<Rightarrow> bool" where
  "capped s \<longleftrightarrow> wf_rt s \<and> bounded s \<and> set (promises s) \<subseteq> set (pids s) \<and>
     promisesCount s \<le> limit s \<and> (promises s = [] \<longrightarrow> promisesCount s < limit s)"

lemma capped_admit:
  assumes "wf_rt s" "bounded s" "set (promises s) \<subseteq> set (pids s)" "promisesCount s < limit s"
  shows "capped (admit w it s)"
  using assms wf_rt_admit[OF assms(1), of w it]
  by (auto simp: capped_def bounded_def pids_admit)

lemma capped_admit_loop:
  "capped s \<Longrightarrow> admit_loop w xs s = (r, s') \<Longrightarrow>
   wf_rt s' \<and> bounded s' \<and> (r = None \<longrightarrow> capped s')"
proof (induction xs arbitrary: s)
  case Nil then show ?case by (simp add: capped_def)
next
  case (Cons it rest)
  note c = Cons.prems(1)[unfolded capped_def]
  show ?case
  proof (cases "it = Falsy")
    case True with Cons.prems show ?thesis by (simp add: capped_def)
  next
    case False
    show ?thesis
    proof (cases "promisesCount s \<ge> limit s")
      case full: True
      with c have ne: "promises s \<noteq> []" by auto
      obtain r1 s1 where ex: "execute w s = (r1, s1)" by (cases "execute w s") auto
      from c have pre: "wf_rt s" "bounded s" "promisesCount s \<le> limit s"
        "set (promises s) \<subseteq> set (pids s)" by auto
      note e = execute_cap[OF pre ex]
      show ?thesis
      proof (cases r1)
        case (Some err)
        with Cons.prems(2) False full ex e show ?thesis by auto
      next
        case None
        with Cons.prems(2) False full ex
        have al: "admit_loop w rest (admit w it s1) = (r, s')" by simp
        have "promisesCount s1 < limit s1"
          using e(5)[OF ne] c execute_keeps(1)[OF ex] by simp
        with e have "capped (admit w it s1)" by (intro capped_admit) simp_all
        from Cons.IH[OF this al] show ?thesis .
      qed
    next
      case notfull: False
      with Cons.prems(2) False
      have al: "admit_loop w rest (admit w it s) = (r, s')" by simp
      have "capped (admit w it s)" using c notfull by (intro capped_admit) simp_all
      from Cons.IH[OF this al] show ?thesis .
    qed
  qed
qed

text \<open>What holds when \<open>process\<close> is entered, and when it calls itself.\<close>

definition idle_below :: "state \<Rightarrow> bool" where
  "idle_below s \<longleftrightarrow> wf_rt s \<and> bounded s \<and> promises s = [] \<and> promisesCount s < limit s"

lemma idle_below_round:
  assumes "idle_below s" "process_round w xs s = (r, ris, s')"
  shows "bounded s' \<and> (r = None \<longrightarrow> idle_below s')"
proof -
  obtain r1 s1 where al: "admit_loop w (rev xs) (s\<lparr>processing := True\<rparr>) = (r1, s1)"
    by (cases "admit_loop w (rev xs) (s\<lparr>processing := True\<rparr>)") auto
  have "capped (s\<lparr>processing := True\<rparr>)"
    using assms(1) by (simp add: idle_below_def capped_def wf_rt_def bounded_def)
  from capped_admit_loop[OF this al] have a: "wf_rt s1" "bounded s1" "r1 = None \<longrightarrow> capped s1"
    by auto
  show ?thesis
  proof (cases r1)
    case (Some err)
    with assms(2) al a show ?thesis by (auto simp: process_round_def)
  next
    case None
    with a have c: "capped s1" by simp
    obtain r2 s2 where ex: "(if promises s1 \<noteq> [] then execute w s1 else (None, s1)) = (r2, s2)"
      by (cases "(if promises s1 \<noteq> [] then execute w s1 else (None, s1))") auto
    have i2: "idle_below s2"
    proof (cases "promises s1 = []")
      case True
      with ex c show ?thesis by (auto simp: capped_def idle_below_def)
    next
      case False
      with ex have e: "execute w s1 = (r2, s2)" by simp
      from c have pre: "wf_rt s1" "bounded s1" "promisesCount s1 \<le> limit s1"
        "set (promises s1) \<subseteq> set (pids s1)" by (auto simp: capped_def)
      note ec = execute_cap[OF pre e]
      from ec(5)[OF False] pre(3) execute_keeps(1)[OF e] ec(1,2,3)
      show ?thesis by (simp add: idle_below_def)
    qed
    show ?thesis
    proof (cases "r2 = None \<and> retryQueue s2 \<noteq> []")
      case True
      with assms(2) al None ex have rl: "retry_loop (rev (retryQueue s2)) [] s2 = (r, ris, s')"
        by (auto simp: process_round_def)
      have "idle_below s'"
        by (rule retry_loop_rule[OF rl, of idle_below, OF i2])
           (simp_all add: idle_below_def wf_rt_def bounded_def)
      then show ?thesis by (simp add: idle_below_def)
    next
      case False
      with assms(2) al None ex i2 show ?thesis
        by (auto simp: process_round_def idle_below_def split: option.splits)
    qed
  qed
qed

lemma idle_below_process: "idle_below s \<Longrightarrow> bounded (snd (process w xs s))"
proof (induction w xs s rule: process_induct)
  case (round w xs s)
  obtain r ris s1 where pr: "process_round w xs s = (r, ris, s1)"
    by (cases "process_round w xs s") auto
  note b = idle_below_round[OF round.prems pr]
  show ?case
  proof (cases r)
    case (Some err)
    with pr b show ?thesis by (simp add: process_throw)
  next
    case None
    show ?thesis
    proof (cases "ris = []")
      case True
      with pr None b show ?thesis by (simp add: process_done bounded_def)
    next
      case False
      from round.IH[OF _ False] pr None b
      have "bounded (snd (process w (map Retry ris) s1))" by simp
      with pr None False show ?thesis
        by (auto simp: process_again bounded_def split: prod.splits option.splits)
    qed
  qed
qed

lemma process_keeps [simp]:
  "limit (snd (process w xs s)) = limit s"
  "maxRetry (snd (process w xs s)) = maxRetry s"
  "rps (snd (process w xs s)) = rps s"
  "onError (snd (process w xs s)) = onError s"
proof -
  have "stable w (\<lambda>x. limit x = limit s)" by (rule stableI) simp_all
  from stable_process[OF this, of s xs] show "limit (snd (process w xs s)) = limit s" by simp
  have "stable w (\<lambda>x. maxRetry x = maxRetry s)" by (rule stableI) simp_all
  from stable_process[OF this, of s xs] show "maxRetry (snd (process w xs s)) = maxRetry s" by simp
  have "stable w (\<lambda>x. rps x = rps s)" by (rule stableI) simp_all
  from stable_process[OF this, of s xs] show "rps (snd (process w xs s)) = rps s" by simp
  have "stable w (\<lambda>x. onError x = onError s)" by (rule stableI) simp_all
  from stable_process[OF this, of s xs] show "onError (snd (process w xs s)) = onError s" by simp
qed


section \<open>Failing fast\<close>

lemma fire_no_retry: "maxRetry s = 0 \<Longrightarrow> retryQueue (fire w s) = retryQueue s"
proof (cases "inflight s = []")
  case True then show ?thesis by (simp add: fire_None)
next
  case False
  assume m: "maxRetry s = 0"
  from False show ?thesis
  proof (cases rule: fire_elim[where w=w])
    case (Settle e res s1)
    with m show ?thesis by (cases res) simp_all
  next
    case (Park e r s1) then show ?thesis by simp
  next
    case (Invoke e s1 t) then show ?thesis by simp
  qed
qed

text \<open>The reason of the promise rejected first, if any.\<close>

definition first_rejection :: "state \<Rightarrow> js_error option" where
  "first_rejection s = (case rejected s of [] \<Rightarrow> None | x # _ \<Rightarrow> Some (snd x))"

text \<open>During a wait without retries: no retry item appears, and only awaited promises reject.\<close>

definition failing :: "state \<Rightarrow> state \<Rightarrow> bool" where
  "failing s x \<longleftrightarrow> wf_rt x \<and> retryQueue x = [] \<and> maxRetry x = 0 \<and>
     set (pids x) \<subseteq> set (pids s) \<and> (\<forall>y\<in>set (rejected x). fst y \<in> set (pids s))"

lemma failing_fire: "failing s x \<Longrightarrow> failing s (fire w x)"
proof (cases "inflight x = []")
  case True
  assume "failing s x" with True show ?thesis by (simp add: fire_None)
next
  case False
  assume f: "failing s x"
  then have wf: "wf_rt x" and d: "distinct (pids x)" by (simp_all add: failing_def wf_rt_def)
  have wf': "wf_rt (fire w x)" using wf by (rule wf_rt_fire)
  have rq: "retryQueue (fire w x) = []" using f fire_no_retry[of x w] by (simp add: failing_def)
  from False d show ?thesis
  proof (cases rule: fire_effect[where w=w])
    case (Settled p)
    have "set (remove1 p (pids x)) \<subseteq> set (pids x)" by (rule set_remove1_subset)
    with Settled f wf' rq show ?thesis by (auto simp: failing_def subset_iff)
  next
    case (Moved p)
    have "set (remove1 p (pids x) @ [p]) = set (pids x)" using Moved(1) d by auto
    with Moved f wf' rq show ?thesis by (auto simp: failing_def subset_iff)
  qed
qed

definition fail_fast :: "state \<Rightarrow> bool" where
  "fail_fast s \<longleftrightarrow> wf_rt s \<and> maxRetry s = 0 \<and> \<not> onError s \<and> retryQueue s = [] \<and>
     rejected s = [] \<and> set (pids s) \<subseteq> set (promises s)"

lemma fail_fast_execute:
  assumes "fail_fast s" "execute w s = (r, s')"
  shows "wf_rt s' \<and> retryQueue s' = [] \<and> r = first_rejection s' \<and> (r = None \<longrightarrow> fail_fast s')"
proof -
  let ?s1 = "await_all w (promises s) s"
  from assms(1) have s: "wf_rt s" "maxRetry s = 0" "\<not> onError s" "retryQueue s = []"
    "rejected s = []" "set (pids s) \<subseteq> set (promises s)" by (simp_all add: fail_fast_def)
  have "failing s s" using s by (simp add: failing_def)
  then have f: "failing s ?s1" by (rule await_all_rule) (rule failing_fire)
  then have f1: "wf_rt ?s1" "retryQueue ?s1 = []" "set (pids ?s1) \<subseteq> set (pids s)"
    "\<forall>y\<in>set (rejected ?s1). fst y \<in> set (pids s)" by (simp_all add: failing_def)
  show ?thesis
  proof (cases "rejected ?s1")
    case Nil
    then have nr: "\<not> list_ex (is_rejected ?s1) (promises s)"
      by (simp add: list_ex_iff is_rejected_def)
    have "inflight ?s1 = []"
    proof (rule ccontr)
      assume ne: "inflight ?s1 \<noteq> []"
      with await_all_post[of w "promises s" s] nr
      have "\<not> list_ex (is_pending ?s1) (promises s)" by (simp add: all_settled_def)
      moreover from ne obtain e where "e \<in> set (inflight ?s1)" by (cases "inflight ?s1") auto
      then have "epid e \<in> set (pids ?s1)" by (simp add: pids_def)
      with f1(3) s(6) have "epid e \<in> set (promises s)" by auto
      ultimately show False using \<open>e \<in> set (inflight ?s1)\<close>
        by (auto simp: list_ex_iff is_pending_def)
    qed
    moreover have "execute w s = (None, ?s1\<lparr>promises := []\<rparr>)"
      using Nil by (simp add: execute_def Let_def)
    ultimately show ?thesis using assms(2) f1 s Nil
      by (auto simp: fail_fast_def first_rejection_def wf_rt_def pids_def)
  next
    case (Cons x rest)
    obtain p err where x: "x = (p, err)" by (cases x)
    have "p \<in> set (promises s)" using f1(4) s(6) Cons x by auto
    then have "find (\<lambda>(p, err). p \<in> set (promises ?s1)) (rejected ?s1) = Some (p, err)"
      using Cons x by simp
    then have "execute w s = (Some err, ?s1\<lparr>promises := [], processing := False\<rparr>)"
      using s(3) by (simp add: execute_def Let_def)
    with assms(2) f1 Cons x show ?thesis
      by (auto simp: first_rejection_def wf_rt_def pids_def)
  qed
qed

lemma fail_fast_admit: "fail_fast s \<Longrightarrow> fail_fast (admit w it s)"
  using wf_rt_admit[of s w it] by (auto simp: fail_fast_def pids_admit)

lemma fail_fast_admit_loop:
  "fail_fast s \<Longrightarrow> admit_loop w xs s = (r, s') \<Longrightarrow>
   wf_rt s' \<and> retryQueue s' = [] \<and> r = first_rejection s' \<and> (r = None \<longrightarrow> fail_fast s')"
proof (induction xs arbitrary: s)
  case Nil then show ?case by (simp add: fail_fast_def first_rejection_def)
next
  case (Cons it rest)
  show ?case
  proof (cases "it = Falsy")
    case True with Cons.prems show ?thesis by (simp add: fail_fast_def first_rejection_def)
  next
    case False
    show ?thesis
    proof (cases "promisesCount s \<ge> limit s")
      case full: True
      obtain r1 s1 where ex: "execute w s = (r1, s1)" by (cases "execute w s") auto
      note e = fail_fast_execute[OF Cons.prems(1) ex]
      show ?thesis
      proof (cases r1)
        case (Some err)
        with Cons.prems(2) False full ex have "r = Some err" "s' = s1" by simp_all
        with e Some show ?thesis by auto
      next
        case None
        with Cons.prems(2) False full ex
        have al: "admit_loop w rest (admit w it s1) = (r, s')" by simp
        from e None have "fail_fast (admit w it s1)" by (intro fail_fast_admit) simp
        from Cons.IH[OF this al] show ?thesis .
      qed
    next
      case notfull: False
      with Cons.prems(2) False
      have al: "admit_loop w rest (admit w it s) = (r, s')" by simp
      from Cons.IH[OF fail_fast_admit[OF Cons.prems(1)] al] show ?thesis .
    qed
  qed
qed

lemma fail_fast_process:
  assumes "fail_fast s" "process w xs s = (res, s')"
  shows "res = first_rejection s' \<and> length_prop s' = int (length (inflight s')) \<and>
         \<not> isProcessing s'"
proof -
  obtain r1 s1 where al: "admit_loop w (rev xs) (s\<lparr>processing := True\<rparr>) = (r1, s1)"
    by (cases "admit_loop w (rev xs) (s\<lparr>processing := True\<rparr>)") auto
  have "fail_fast (s\<lparr>processing := True\<rparr>)"
    using assms(1) by (simp add: fail_fast_def wf_rt_def)
  note a = fail_fast_admit_loop[OF this al]
  have fl: "\<not> isProcessing s'"
    using process_flag[of w xs s] assms(2) by (simp add: isProcessing_def)
  show ?thesis
  proof (cases r1)
    case (Some err)
    with al have "process_round w xs s = (Some err, [], s1)" by (simp add: process_round_def)
    from process_throw[OF this] assms(2) a Some fl show ?thesis
      by (auto simp: length_prop_def wf_rt_def)
  next
    case None
    obtain r2 s2 where ex: "(if promises s1 \<noteq> [] then execute w s1 else (None, s1)) = (r2, s2)"
      by (cases "(if promises s1 \<noteq> [] then execute w s1 else (None, s1))") auto
    have e: "wf_rt s2 \<and> retryQueue s2 = [] \<and> r2 = first_rejection s2"
    proof (cases "promises s1 = []")
      case True
      with ex a None show ?thesis by auto
    next
      case False
      with ex have "execute w s1 = (r2, s2)" by simp
      from fail_fast_execute[OF _ this] a None show ?thesis by simp
    qed
    show ?thesis
    proof (cases r2)
      case (Some err)
      with al None ex have "process_round w xs s = (Some err, [], s2)"
        by (simp add: process_round_def)
      from process_throw[OF this] assms(2) e Some fl show ?thesis
        by (auto simp: length_prop_def wf_rt_def)
    next
      case r2: None
      with al None ex e have "process_round w xs s = (None, [], s2)"
        by (simp add: process_round_def)
      from process_done[OF this] assms(2) e r2 fl show ?thesis
        by (auto simp: length_prop_def wf_rt_def first_rejection_def)
    qed
  qed
qed

section \<open>Filling and draining\<close>

text \<open>
  A limiter without \<open>rps\<close> whose \<open>n\<close> pending wrappers are all awaited and all about
  to succeed, with no failure behind it.
\<close>

definition calm :: "state \<Rightarrow> nat \<Rightarrow> bool" where
  "calm s n \<longleftrightarrow> promisesCount s = int n \<and> length (inflight s) = n \<and>
     list_all (\<lambda>e. ephase e = Run None) (inflight s) \<and> rejected s = [] \<and> retryQueue s = [] \<and>
     (rps s = None \<or> rps s = Some 0) \<and> set (pids s) \<subseteq> set (promises s)"

definition up :: "nat \<Rightarrow> nat \<Rightarrow> int list" where
  "up j n = map int [Suc j..<Suc (j + n)]"

definition down :: "nat \<Rightarrow> int list" where
  "down n = map int (rev [0..<n])"

lemma calm_fire:
  assumes "calm s (Suc n)"
  shows "calm (fire w s) n \<and> samples (fire w s) = samples s @ [int n] \<and>
         calls (fire w s) = calls s \<and> promises (fire w s) = promises s"
proof -
  from assms have ne: "inflight s \<noteq> []" by (auto simp: calm_def)
  then show ?thesis
  proof (cases rule: fire_elim[where w=w])
    case (Settle e res s1)
    from assms Settle(2,3) have res: "res = None" by (auto simp: calm_def list_all_iff)
    have "set (remove1 e (inflight s)) \<subseteq> set (inflight s)" by (rule set_remove1_subset)
    then have "set (pids s1) \<subseteq> set (pids s)" "list_all (\<lambda>e. ephase e = Run None) (inflight s1)"
      using assms Settle(4) by (auto simp: pids_def calm_def list_all_iff)
    moreover have "length (inflight s1) = n"
      using assms Settle(2,4) by (simp add: calm_def length_remove1)
    ultimately show ?thesis using assms Settle(4)
      by (auto simp: Settle(5) res calm_def pids_def)
  next
    case (Park e r s1)
    with assms show ?thesis by (auto simp: calm_def list_all_iff)
  next
    case (Invoke e s1 t)
    with assms show ?thesis by (auto simp: calm_def list_all_iff)
  qed
qed

lemma calm_await_all:
  "calm s n \<Longrightarrow> set ps = set (promises s) \<Longrightarrow>
   calm (await_all w ps s) 0 \<and> samples (await_all w ps s) = samples s @ down n \<and>
   calls (await_all w ps s) = calls s"
proof (induction n arbitrary: s)
  case 0
  then have "inflight s = []" by (simp add: calm_def)
  with 0 show ?case by (simp add: await_all_stop down_def)
next
  case (Suc n)
  from Suc.prems(1) obtain e where e: "e \<in> set (inflight s)"
    by (cases "inflight s") (auto simp: calm_def)
  then have "epid e \<in> set ps" using Suc.prems by (auto simp: calm_def pids_def)
  with e have "list_ex (is_pending s) ps" by (auto simp: list_ex_iff is_pending_def)
  moreover have "\<not> list_ex (is_rejected s) ps"
    using Suc.prems(1) by (simp add: calm_def list_ex_iff is_rejected_def)
  ultimately have "\<not> (inflight s = [] \<or> (all_settled ps s \<and> \<not> due s))"
    using e by (auto simp: all_settled_def)
  then have st: "await_all w ps s = await_all w ps (fire w s)" by (rule await_all_step)
  note f = calm_fire[OF Suc.prems(1), of w]
  from Suc.IH[of "fire w s"] f Suc.prems(2) show ?case
    by (simp add: st down_def)
qed

lemma calm_execute:
  assumes "calm s n"
  shows "\<exists>s'. execute w s = (None, s') \<and> calm s' 0 \<and> promises s' = [] \<and>
           samples s' = samples s @ down n \<and> calls s' = calls s \<and> limit s' = limit s"
proof -
  let ?s1 = "await_all w (promises s) s"
  note a = calm_await_all[OF assms refl, of w]
  then have "rejected ?s1 = []" by (simp add: calm_def)
  then have "execute w s = (None, ?s1\<lparr>promises := []\<rparr>)" by (simp add: execute_def Let_def)
  moreover have "calm (?s1\<lparr>promises := []\<rparr>) 0" using a by (simp add: calm_def pids_def)
  ultimately show ?thesis using a by simp
qed

lemma calm_admit:
  assumes "calm s n" "\<forall>c k. snd (w c k) = None"
  shows "calm (admit w it s) (Suc n) \<and> samples (admit w it s) = samples s @ [int (Suc n)] \<and>
         calls (admit w it s) = calls s @ [item_callback it]"
proof -
  from assms(1) have "rps s = None \<or> rps s = Some 0" by (simp add: calm_def)
  note g = no_gate_without_rps[OF this, of w it]
  have "snd (outcome w s it) = None" using assms(2) by (simp add: outcome_def)
  with g assms(1) show ?thesis by (auto simp: calm_def pids_def)
qed

text \<open>While there is room, items are admitted one after the other.\<close>

lemma calm_fill:
  assumes "\<forall>c k. snd (w c k) = None"
  shows "calm s j \<Longrightarrow> int (j + length xs) \<le> limit s \<Longrightarrow> Falsy \<notin> set xs \<Longrightarrow>
   \<exists>s'. admit_loop w (xs @ rest) s = admit_loop w rest s' \<and> calm s' (j + length xs) \<and>
        samples s' = samples s @ up j (length xs) \<and>
        calls s' = calls s @ map item_callback xs \<and> limit s' = limit s"
proof (induction xs arbitrary: s j)
  case Nil
  then show ?case by (intro exI[of _ s]) (simp add: up_def)
next
  case (Cons x xs)
  from Cons.prems have nf: "\<not> promisesCount s \<ge> limit s" "x \<noteq> Falsy" by (auto simp: calm_def)
  then have st: "admit_loop w ((x # xs) @ rest) s = admit_loop w (xs @ rest) (admit w x s)" by simp
  note a = calm_admit[OF Cons.prems(1) assms, of x]
  from Cons.IH[of "admit w x s" "Suc j"] a Cons.prems(2,3)
  obtain s' where s': "admit_loop w (xs @ rest) (admit w x s) = admit_loop w rest s'"
    "calm s' (Suc j + length xs)" "samples s' = samples (admit w x s) @ up (Suc j) (length xs)"
    "calls s' = calls (admit w x s) @ map item_callback xs" "limit s' = limit (admit w x s)"
    by auto
  have "up j (Suc (length xs)) = int (Suc j) # up (Suc j) (length xs)"
    by (simp add: up_def upt_rec)
  with s' a st show ?case by (intro exI[of _ s']) simp
qed

text \<open>The admission loop followed by the final drain of \<open>process\<close>.\<close>

definition admit_and_drain :: "world \<Rightarrow> item list \<Rightarrow> state \<Rightarrow> js_error option \<times> state" where
  "admit_and_drain w xs s =
     (case admit_loop w xs s of
        (Some err, s1) \<Rightarrow> (Some err, s1)
      | (None, s1) \<Rightarrow> if promises s1 \<noteq> [] then execute w s1 else (None, s1))"

lemma process_round_alt:
  "process_round w xs s =
     (case admit_and_drain w (rev xs) (s\<lparr>processing := True\<rparr>) of
        (Some err, s2) \<Rightarrow> (Some err, [], s2)
      | (None, s2) \<Rightarrow>
          if retryQueue s2 \<noteq> [] then retry_loop (rev (retryQueue s2)) [] s2 else (None, [], s2))"
  by (simp add: process_round_def admit_and_drain_def split: prod.splits option.splits)

text \<open>
  The values the count takes while \<open>k\<close> tasks run on a limit of \<open>l\<close>: full batches, in
  each of which the count climbs to \<open>l\<close> and falls back to 0, and a last batch of
  \<open>k mod l\<close>.
\<close>

definition batch :: "nat \<Rightarrow> int list" where
  "batch n = up 0 n @ down n"

definition batches :: "nat \<Rightarrow> nat \<Rightarrow> int list" where
  "batches k l = concat (replicate (k div l) (batch l)) @ batch (k mod l)"

lemma batches_small: "k < l \<Longrightarrow> batches k l = batch k"
  by (simp add: batches_def)

lemma batch_0 [simp]: "batch 0 = []"
  by (simp add: batch_def up_def down_def)

lemma batches_step: "0 < l \<Longrightarrow> l \<le> k \<Longrightarrow> batches k l = batch l @ batches (k - l) l"
  by (simp add: batches_def le_div_geq le_mod_geq)

lemma calm_batches:
  assumes ok: "\<forall>c k. snd (w c k) = None" and l: "0 < l"
  shows "calm s 0 \<Longrightarrow> limit s = int l \<Longrightarrow> Falsy \<notin> set xs \<Longrightarrow>
   \<exists>s'. admit_and_drain w xs s = (None, s') \<and> calm s' 0 \<and>
        samples s' = samples s @ batches (length xs) l \<and>
        calls s' = calls s @ map item_callback xs \<and> limit s' = int l"
proof (induction "length xs" arbitrary: xs s rule: less_induct)
  case less
  show ?case
  proof (cases "length xs \<le> l")
    case True
    from calm_fill[OF ok less.prems(1) _ less.prems(3), of "[]"] True less.prems(2)
    obtain s1 where s1: "admit_loop w xs s = (None, s1)" "calm s1 (length xs)"
      "samples s1 = samples s @ up 0 (length xs)" "calls s1 = calls s @ map item_callback xs"
      "limit s1 = limit s" by auto
    from calm_execute[OF s1(2), of w] obtain s2 where s2: "execute w s1 = (None, s2)"
      "calm s2 0" "samples s2 = samples s1 @ down (length xs)" "calls s2 = calls s1"
      "limit s2 = limit s1" by auto
    have b: "batches (length xs) l = batch (length xs)"
    proof (cases "length xs = l")
      case True
      with l batches_step[of l l] batches_small[of 0 l] show ?thesis by simp
    next
      case False
      with True show ?thesis by (simp add: batches_small)
    qed
    show ?thesis
    proof (cases "promises s1 = []")
      case pe: True
      with s1(2) have "length xs = 0" by (auto simp: calm_def pids_def)
      with s1 pe less.prems show ?thesis
        by (intro exI[of _ s1]) (simp add: admit_and_drain_def up_def batches_def)
    next
      case False
      with s1 s2 b less.prems(2) show ?thesis
        by (intro exI[of _ s2]) (simp add: admit_and_drain_def batch_def)
    qed
  next
    case False
    define ys where "ys = take l xs"
    define zs where "zs = drop l xs"
    have xs: "xs = ys @ zs" and ly: "length ys = l" and lz: "length zs = length xs - l"
      using False by (simp_all add: ys_def zs_def)
    from False lz obtain z zs' where z: "zs = z # zs'" by (cases zs) auto
    have nf: "Falsy \<notin> set ys" "Falsy \<notin> set zs" "z \<noteq> Falsy"
      using less.prems(3) xs z by auto
    from calm_fill[OF ok less.prems(1) _ nf(1), of zs] ly less.prems(2)
    obtain s1 where s1: "admit_loop w (ys @ zs) s = admit_loop w zs s1" "calm s1 l"
      "samples s1 = samples s @ up 0 l" "calls s1 = calls s @ map item_callback ys"
      "limit s1 = limit s" by auto
    from calm_execute[OF s1(2), of w] obtain s2 where s2: "execute w s1 = (None, s2)"
      "calm s2 0" "samples s2 = samples s1 @ down l" "calls s2 = calls s1"
      "limit s2 = limit s1" by auto
    have full: "promisesCount s1 \<ge> limit s1" "\<not> promisesCount s2 \<ge> limit s2"
      using s1(2,5) s2(2,5) less.prems(2) l by (simp_all add: calm_def)
    have "admit_loop w zs s1 = admit_loop w zs' (admit w z s2)"
      using z nf(3) full(1) s2(1) by simp
    also have "\<dots> = admit_loop w zs s2" using z nf(3) full(2) by simp
    finally have "admit_loop w xs s = admit_loop w zs s2" using s1(1) xs by simp
    then have ad: "admit_and_drain w xs s = admit_and_drain w zs s2"
      by (simp add: admit_and_drain_def)
    have "length zs < length xs" using lz l False by simp
    from less.hyps[OF this s2(2) _ nf(2)] s2(5) s1(5) less.prems(2)
    obtain s' where s': "admit_and_drain w zs s2 = (None, s')" "calm s' 0"
      "samples s' = samples s2 @ batches (length zs) l"
      "calls s' = calls s2 @ map item_callback zs" "limit s' = int l" by auto
    have "batches (length xs) l = batch l @ batches (length zs) l"
      using batches_step[OF l, of "length xs"] False lz by simp
    with s' s1 s2 ad xs show ?thesis
      by (intro exI[of _ s']) (simp add: batch_def)
  qed
qed

section \<open>Retrying\<close>

text \<open>The callbacks waiting at the gate, and those of all pending wrappers.\<close>

definition gate_cbs :: "state \<Rightarrow> nat multiset" where
  "gate_cbs s = mset (map (\<lambda>e. item_callback (eitem e)) (filter (\<lambda>e. ephase e = Gate) (inflight s)))"

definition flight_cbs :: "state \<Rightarrow> nat multiset" where
  "flight_cbs s = mset (map (\<lambda>e. item_callback (eitem e)) (inflight s))"

definition queue_cbs :: "state \<Rightarrow> nat multiset" where
  "queue_cbs s = mset (map callback (retryQueue s))"

text \<open>
  A round in which everything fails, callback \<open>c\<close> always with \<open>err c\<close>, and every
  item has \<open>k\<close> retries left: since the state \<open>s0\<close>, each admitted item has been invoked
  or waits at the gate, and is pending or in the retry queue.
\<close>

definition retrying :: "(nat \<Rightarrow> js_error) \<Rightarrow> nat \<Rightarrow> state \<Rightarrow> state \<Rightarrow> bool" where
  "retrying err k s0 s \<longleftrightarrow>
     0 < maxRetry s \<and> maxRetry s = maxRetry s0 \<and> onError s = onError s0 \<and>
     sink s = sink s0 \<and> rejected s = [] \<and> set (pids s) \<subseteq> set (promises s) \<and>
     list_all (\<lambda>e. item_retries (maxRetry s) (eitem e) = k \<and>
        (ephase e = Gate \<or> ephase e = Run (Some (err (item_callback (eitem e))))))
       (inflight s) \<and>
     list_all (\<lambda>q. retries q = k \<and> error q = Some (err (callback q))) (retryQueue s) \<and>
     (\<exists>zs. admitted s = admitted s0 @ zs \<and>
        mset (calls s) + gate_cbs s = mset (calls s0) + gate_cbs s0 + mset (map item_callback zs) \<and>
        queue_cbs s + flight_cbs s = queue_cbs s0 + flight_cbs s0 + mset (map item_callback zs))"

lemma mset_map_remove1:
  "e \<in> set xs \<Longrightarrow> mset (map f (remove1 e xs)) + {#f e#} = mset (map f xs)"
  by (induction xs) auto

lemma mset_map_filter_remove1:
  "e \<in> set xs \<Longrightarrow>
   mset (map f (filter P (remove1 e xs))) + (if P e then {#f e#} else {#}) = mset (map f (filter P xs))"
  by (induction xs) auto

lemma retrying_fire:
  assumes r: "retrying err k s0 s" and w: "\<forall>c n. snd (w c n) = Some (err c)"
  shows "retrying err k s0 (fire w s)"
proof (cases "inflight s = []")
  case True with r show ?thesis by (simp add: fire_None)
next
  case False
  define f :: "entry \<Rightarrow> nat" where "f = (\<lambda>e. item_callback (eitem e))"
  from r obtain zs where zs: "admitted s = admitted s0 @ zs"
    "mset (calls s) + gate_cbs s = mset (calls s0) + gate_cbs s0 + mset (map item_callback zs)"
    "queue_cbs s + flight_cbs s = queue_cbs s0 + flight_cbs s0 + mset (map item_callback zs)"
    by (auto simp: retrying_def)
  from r have m: "0 < maxRetry s" "maxRetry s = maxRetry s0" "onError s = onError s0"
    "sink s = sink s0"
    and rj: "rejected s = []"
    and ps: "set (pids s) \<subseteq> set (promises s)"
    and es: "\<forall>e\<in>set (inflight s). item_retries (maxRetry s) (eitem e) = k \<and>
        (ephase e = Gate \<or> ephase e = Run (Some (err (item_callback (eitem e)))))"
    and qs: "\<forall>q\<in>set (retryQueue s). retries q = k \<and> error q = Some (err (callback q))"
    by (auto simp: retrying_def list_all_iff)
  from False show ?thesis
  proof (cases rule: fire_elim[where w=w])
    case (Settle e res s1)
    from es Settle(2,3) have res: "res = Some (err (item_callback (eitem e)))"
      and ek: "item_retries (maxRetry s) (eitem e) = k" by auto
    have sub: "set (remove1 e (inflight s)) \<subseteq> set (inflight s)" by (rule set_remove1_subset)
    have g: "gate_cbs (fire w s) = gate_cbs s"
      using mset_map_filter_remove1[OF Settle(2), of f "\<lambda>e. ephase e = Gate"] Settle(3,4)
      by (simp add: Settle(5) gate_cbs_def f_def)
    have fl: "flight_cbs (fire w s) + {#f e#} = flight_cbs s"
      using mset_map_remove1[OF Settle(2), of f] Settle(4)
      by (simp add: Settle(5) flight_cbs_def f_def)
    have q: "queue_cbs (fire w s) = queue_cbs s + {#f e#}"
      using m Settle(4) by (simp add: Settle(5) res queue_cbs_def f_def)
    have "queue_cbs (fire w s) + flight_cbs (fire w s) = queue_cbs s + flight_cbs s"
      using fl q by (metis add.assoc add.commute)
    moreover have "set (pids (fire w s)) \<subseteq> set (promises (fire w s))"
      using ps sub Settle(4) by (auto simp: Settle(5) pids_def)
    moreover have "list_all (\<lambda>q. retries q = k \<and> error q = Some (err (callback q)))
        (retryQueue (fire w s))"
      using qs m ek Settle(4) by (simp add: Settle(5) res list_all_iff)
    moreover have "list_all (\<lambda>e. item_retries (maxRetry (fire w s)) (eitem e) = k \<and>
        (ephase e = Gate \<or> ephase e = Run (Some (err (item_callback (eitem e))))))
       (inflight (fire w s))"
      using es sub Settle(4) by (auto simp: Settle(5) list_all_iff)
    ultimately show ?thesis using zs g m rj Settle(4)
      by (auto simp: retrying_def Settle(5) res)
  next
    case (Park e r s1)
    from es Park(2) have ek: "item_retries (maxRetry s) (eitem e) = k" by auto
    have sub: "set (remove1 e (inflight s)) \<subseteq> set (inflight s)" by (rule set_remove1_subset)
    have g: "gate_cbs (fire w s) = gate_cbs s"
      using mset_map_filter_remove1[OF Park(2), of f "\<lambda>e. ephase e = Gate"] Park(3,4)
      by (simp add: Park(8) gate_cbs_def f_def)
    have fl: "flight_cbs (fire w s) = flight_cbs s"
      using mset_map_remove1[OF Park(2), of f] Park(4)
      by (simp add: Park(8) flight_cbs_def f_def)
    have "set (pids (fire w s)) \<subseteq> set (promises (fire w s))"
      using ps sub Park(2,4) by (auto simp: Park(8) pids_def)
    moreover have "list_all (\<lambda>e. item_retries (maxRetry (fire w s)) (eitem e) = k \<and>
        (ephase e = Gate \<or> ephase e = Run (Some (err (item_callback (eitem e))))))
       (inflight (fire w s))"
      using es sub ek Park(4) by (auto simp: Park(8) list_all_iff)
    ultimately show ?thesis using zs g fl m rj qs Park(4)
      by (auto simp: retrying_def Park(8) queue_cbs_def list_all_iff)
  next
    case (Invoke e s1 t)
    from es Invoke(2) have ek: "item_retries (maxRetry s) (eitem e) = k" by auto
    have sub: "set (remove1 e (inflight s)) \<subseteq> set (inflight s)" by (rule set_remove1_subset)
    have o: "snd (outcome w (s1\<lparr>tick := t\<rparr>) (eitem e)) = Some (err (item_callback (eitem e)))"
      using w by (simp add: outcome_def)
    have g: "gate_cbs (fire w s) + {#f e#} = gate_cbs s"
      using mset_map_filter_remove1[OF Invoke(2), of f "\<lambda>e. ephase e = Gate"] Invoke(3,4)
      by (simp add: Invoke(5) gate_cbs_def f_def)
    have c: "mset (calls (fire w s)) = mset (calls s) + {#f e#}"
      using Invoke(4) by (simp add: Invoke(5) f_def)
    have "mset (calls (fire w s)) + gate_cbs (fire w s) = mset (calls s) + gate_cbs s"
      using g c by (metis add.assoc add.commute)
    moreover have fl: "flight_cbs (fire w s) = flight_cbs s"
      using mset_map_remove1[OF Invoke(2), of f] Invoke(4)
      by (simp add: Invoke(5) flight_cbs_def f_def)
    moreover have "set (pids (fire w s)) \<subseteq> set (promises (fire w s))"
      using ps sub Invoke(2,4) by (auto simp: Invoke(5) pids_def)
    moreover have "list_all (\<lambda>e. item_retries (maxRetry (fire w s)) (eitem e) = k \<and>
        (ephase e = Gate \<or> ephase e = Run (Some (err (item_callback (eitem e))))))
       (inflight (fire w s))"
      using es sub ek o Invoke(4) by (auto simp: Invoke(5) list_all_iff)
    ultimately show ?thesis using zs m rj qs Invoke(4)
      by (auto simp: retrying_def Invoke(5) queue_cbs_def list_all_iff)
  qed
qed

lemma retrying_execute:
  assumes r: "retrying err k s0 s" and w: "\<forall>c n. snd (w c n) = Some (err c)"
  shows "\<exists>s'. execute w s = (None, s') \<and> retrying err k s0 s' \<and> inflight s' = [] \<and>
              promises s' = []"
proof -
  let ?s1 = "await_all w (promises s) s"
  have r1: "retrying err k s0 ?s1"
    by (rule await_all_rule[where P="retrying err k s0", OF r]) (rule retrying_fire[OF _ w])
  then have rj: "rejected ?s1 = []" and ps: "set (pids ?s1) \<subseteq> set (promises s)"
    by (simp_all add: retrying_def)
  have e: "inflight ?s1 = []"
  proof (rule ccontr)
    assume ne: "inflight ?s1 \<noteq> []"
    from rj have "\<not> list_ex (is_rejected ?s1) (promises s)"
      by (simp add: list_ex_iff is_rejected_def)
    with ne await_all_post[of w "promises s" s]
    have np: "\<not> list_ex (is_pending ?s1) (promises s)" by (simp add: all_settled_def)
    from ne obtain e where e: "e \<in> set (inflight ?s1)" by (cases "inflight ?s1") auto
    then have "epid e \<in> set (promises s)" using ps by (auto simp: pids_def)
    with np e show False by (auto simp: list_ex_iff is_pending_def)
  qed
  have "execute w s = (None, ?s1\<lparr>promises := []\<rparr>)" using rj by (simp add: execute_def Let_def)
  moreover have "retrying err k s0 (?s1\<lparr>promises := []\<rparr>)"
    using r1 e by (simp add: retrying_def pids_def gate_cbs_def flight_cbs_def queue_cbs_def)
  ultimately show ?thesis using e by simp
qed

lemma admit_entry:
  "\<exists>e'. inflight (admit w it s) = inflight s @ [e'] \<and> epid e' = nextId s \<and> eitem e' = it \<and>
     (ephase e' = Gate \<and> calls (admit w it s) = calls s \<or>
      ephase e' = Run (snd (outcome w s it)) \<and> calls (admit w it s) = calls s @ [item_callback it])"
proof -
  let ?s2 = "(count_up s)\<lparr>nextId := Suc (nextId s)\<rparr>"
  from limitRps_cases[of ?s2 w "nextId s" it]
  consider t where "limitRps w (nextId s) it ?s2 = park (nextId s) it t ?s2"
    | "limitRps w (nextId s) it ?s2 = invoke w (nextId s) it ?s2"
    | "limitRps w (nextId s) it ?s2 = invoke w (nextId s) it (?s2\<lparr>tick := now ?s2\<rparr>)"
    by blast
  then show ?thesis
  proof cases
    case (1 t) then show ?thesis by (simp add: admit_gate)
  next
    case 2 then show ?thesis by (simp add: admit_gate outcome_def)
  next
    case 3 then show ?thesis by (simp add: admit_gate outcome_def)
  qed
qed

lemma retrying_admit:
  assumes r: "retrying err k s0 s" and w: "\<forall>c n. snd (w c n) = Some (err c)"
    and k: "item_retries (maxRetry s) it = k"
  shows "retrying err k s0 (admit w it s)"
proof -
  from r obtain zs where zs: "admitted s = admitted s0 @ zs"
    "mset (calls s) + gate_cbs s = mset (calls s0) + gate_cbs s0 + mset (map item_callback zs)"
    "queue_cbs s + flight_cbs s = queue_cbs s0 + flight_cbs s0 + mset (map item_callback zs)"
    by (auto simp: retrying_def)
  from r have m: "0 < maxRetry s" "maxRetry s = maxRetry s0" "onError s = onError s0"
    "sink s = sink s0"
    and rj: "rejected s = []"
    and ps: "set (pids s) \<subseteq> set (promises s)"
    and es: "list_all (\<lambda>e. item_retries (maxRetry s) (eitem e) = k \<and>
        (ephase e = Gate \<or> ephase e = Run (Some (err (item_callback (eitem e))))))
        (inflight s)"
    and qs: "list_all (\<lambda>q. retries q = k \<and> error q = Some (err (callback q))) (retryQueue s)"
    by (auto simp: retrying_def)
  have o: "snd (outcome w s it) = Some (err (item_callback it))"
    using w by (simp add: outcome_def)
  from admit_entry[of w it s] obtain e' where e': "inflight (admit w it s) = inflight s @ [e']"
    "epid e' = nextId s" "eitem e' = it"
    "ephase e' = Gate \<and> calls (admit w it s) = calls s \<or>
     ephase e' = Run (Some (err (item_callback it))) \<and>
       calls (admit w it s) = calls s @ [item_callback it]"
    unfolding o by blast
  have fl: "flight_cbs (admit w it s) = flight_cbs s + {#item_callback it#}"
    using e'(1,3) by (simp add: flight_cbs_def)
  have cg: "mset (calls (admit w it s)) + gate_cbs (admit w it s) =
      mset (calls s) + gate_cbs s + {#item_callback it#}"
    using e'(1,3,4) by (auto simp: gate_cbs_def)
  have q: "queue_cbs (admit w it s) = queue_cbs s" by (simp add: queue_cbs_def)
  have 1: "set (pids (admit w it s)) \<subseteq> set (promises (admit w it s))"
    using ps by (auto simp: pids_admit)
  have 2: "list_all (\<lambda>e. item_retries (maxRetry (admit w it s)) (eitem e) = k \<and>
        (ephase e = Gate \<or> ephase e = Run (Some (err (item_callback (eitem e))))))
        (inflight (admit w it s))"
    using es k e' by auto
  have 3: "admitted (admit w it s) = admitted s0 @ (zs @ [it])" using zs(1) by simp
  have 4: "mset (calls (admit w it s)) + gate_cbs (admit w it s) =
      mset (calls s0) + gate_cbs s0 + mset (map item_callback (zs @ [it]))"
    using cg zs(2) by simp
  have 5: "queue_cbs (admit w it s) + flight_cbs (admit w it s) =
      queue_cbs s0 + flight_cbs s0 + mset (map item_callback (zs @ [it]))"
    using fl q zs(3) by simp
  show ?thesis
    unfolding retrying_def using m rj qs 1 2 3 4 5 by (intro conjI exI[of _ "zs @ [it]"]) simp_all
qed

lemma retrying_admit_loop:
  assumes w: "\<forall>c n. snd (w c n) = Some (err c)"
  shows "retrying err k s0 s \<Longrightarrow> Falsy \<notin> set xs \<Longrightarrow>
   \<forall>it\<in>set xs. item_retries (maxRetry s0) it = k \<Longrightarrow>
   \<exists>s'. admit_loop w xs s = (None, s') \<and> retrying err k s0 s' \<and> admitted s' = admitted s @ xs"
proof (induction xs arbitrary: s)
  case Nil then show ?case by simp
next
  case (Cons x xs)
  obtain s1 where s1: "(if promisesCount s \<ge> limit s then execute w s else (None, s)) = (None, s1)"
    "retrying err k s0 s1" "admitted s1 = admitted s"
  proof (cases "promisesCount s \<ge> limit s")
    case True
    from retrying_execute[OF Cons.prems(1) w] obtain s' where
      s': "execute w s = (None, s')" "retrying err k s0 s'" by auto
    with True execute_keeps(6)[OF s'(1)] show ?thesis by (intro that[of s']) simp_all
  next
    case False
    with Cons.prems(1) show ?thesis by (intro that[of s]) simp_all
  qed
  have "maxRetry s1 = maxRetry s0" using s1(2) by (simp add: retrying_def)
  with Cons.prems(3) have "item_retries (maxRetry s1) x = k" by simp
  from retrying_admit[OF s1(2) w this] have a: "retrying err k s0 (admit w x s1)" .
  from Cons.IH[OF a] Cons.prems(2,3) obtain s' where
    s': "admit_loop w xs (admit w x s1) = (None, s')" "retrying err k s0 s'"
    "admitted s' = admitted (admit w x s1) @ xs" by auto
  from Cons.prems(2) have "x \<noteq> Falsy" by auto
  with s1 s' show ?case by (intro exI[of _ s']) simp
qed

lemma retry_loop_resubmit:
  "\<forall>q\<in>set q. 0 < retries q \<Longrightarrow>
   retry_loop q acc s =
     (None, acc @ map (\<lambda>it. it\<lparr>retries := retries it - 1\<rparr>) q,
      if q = [] then s else s\<lparr>retryQueue := []\<rparr>)"
proof (induction q arbitrary: acc s)
  case Nil then show ?case by simp
next
  case (Cons it q)
  then show ?case by (cases "q = []") (simp_all add: Let_def)
qed

lemma retry_loop_exhausted:
  "retries it = 0 \<Longrightarrow> \<not> onError s \<Longrightarrow>
   retry_loop (it # q) acc s =
     (Some (LimiterRetryError process_stack ''Retry limit exceeded'' (error it)), acc,
      s\<lparr>promises := [], retryQueue := [], processing := False\<rparr>)"
  by (simp add: Let_def)

text \<open>A round in which everything fails leaves every item in the retry queue.\<close>

lemma retrying_round:
  assumes w: "\<forall>c n. snd (w c n) = Some (err c)"
    and s: "0 < maxRetry s" "rejected s = []" "inflight s = []" "retryQueue s = []"
    and xs: "Falsy \<notin> set xs" "\<forall>it\<in>set xs. item_retries (maxRetry s) it = k"
  shows "\<exists>s2. admit_and_drain w (rev xs) (s\<lparr>processing := True\<rparr>) = (None, s2) \<and>
     maxRetry s2 = maxRetry s \<and> onError s2 = onError s \<and> sink s2 = sink s \<and>
     rejected s2 = [] \<and> inflight s2 = [] \<and>
     mset (calls s2) = mset (calls s) + mset (map item_callback xs) \<and>
     mset (map callback (retryQueue s2)) = mset (map item_callback xs) \<and>
     list_all (\<lambda>q. retries q = k \<and> error q = Some (err (callback q))) (retryQueue s2)"
proof -
  let ?s0 = "s\<lparr>processing := True\<rparr>"
  have r0: "retrying err k ?s0 ?s0"
    using s by (simp add: retrying_def pids_def)
  have "Falsy \<notin> set (rev xs)" "\<forall>it\<in>set (rev xs). item_retries (maxRetry ?s0) it = k"
    using xs by simp_all
  from retrying_admit_loop[OF w r0 this] obtain s1 where
    s1: "admit_loop w (rev xs) ?s0 = (None, s1)" "retrying err k ?s0 s1"
    "admitted s1 = admitted ?s0 @ rev xs" by auto
  obtain s2 where s2: "admit_and_drain w (rev xs) ?s0 = (None, s2)" "retrying err k ?s0 s2"
    "inflight s2 = []" "admitted s2 = admitted s1"
  proof (cases "promises s1 = []")
    case True
    with s1(2) have "inflight s1 = []" by (simp add: retrying_def pids_def)
    with True s1 show ?thesis by (intro that[of s1]) (simp_all add: admit_and_drain_def)
  next
    case False
    from retrying_execute[OF s1(2) w] obtain s' where
      s': "execute w s1 = (None, s')" "retrying err k ?s0 s'" "inflight s' = []" by auto
    with False s1 execute_keeps(6)[OF s'(1)] show ?thesis
      by (intro that[of s']) (simp_all add: admit_and_drain_def)
  qed
  from s2(2) obtain zs where zs: "admitted s2 = admitted ?s0 @ zs"
    "mset (calls s2) + gate_cbs s2 = mset (calls ?s0) + gate_cbs ?s0 + mset (map item_callback zs)"
    "queue_cbs s2 + flight_cbs s2 = queue_cbs ?s0 + flight_cbs ?s0 + mset (map item_callback zs)"
    by (auto simp: retrying_def)
  from zs(1) s2(4) s1(3) have "zs = rev xs" by simp
  then have m: "mset (map item_callback zs) = mset (map item_callback xs)"
    by (simp add: rev_map[symmetric])
  have g: "gate_cbs s2 = {#}" "flight_cbs s2 = {#}" "gate_cbs ?s0 = {#}" "flight_cbs ?s0 = {#}"
    "queue_cbs ?s0 = {#}"
    using s2(3) s by (simp_all add: gate_cbs_def flight_cbs_def queue_cbs_def)
  from zs(2,3) m g have "mset (calls s2) = mset (calls s) + mset (map item_callback xs)"
    "mset (map callback (retryQueue s2)) = mset (map item_callback xs)"
    by (simp_all add: queue_cbs_def)
  with s2 show ?thesis by (intro exI[of _ s2]) (simp add: retrying_def)
qed

lemma retry_exhaustion:
  assumes w: "\<forall>c n. snd (w c n) = Some (err c)"
  shows "0 < maxRetry s \<Longrightarrow> \<not> onError s \<Longrightarrow> rejected s = [] \<Longrightarrow> inflight s = [] \<Longrightarrow>
    retryQueue s = [] \<Longrightarrow> xs \<noteq> [] \<Longrightarrow> Falsy \<notin> set xs \<Longrightarrow>
    \<forall>it\<in>set xs. item_retries (maxRetry s) it = k \<Longrightarrow>
    \<exists>c\<in>set (map item_callback xs). \<exists>s'.
      process w xs s =
        (Some (LimiterRetryError process_stack ''Retry limit exceeded'' (Some (err c))), s') \<and>
      mset (calls s') = mset (calls s) + repeat_mset (Suc k) (mset (map item_callback xs))"
proof (induction k arbitrary: xs s)
  case 0
  from retrying_round[OF w 0(1,3,4,5,7,8)] obtain s2 where
    s2: "admit_and_drain w (rev xs) (s\<lparr>processing := True\<rparr>) = (None, s2)"
    "onError s2 = onError s"
    "mset (calls s2) = mset (calls s) + mset (map item_callback xs)"
    "mset (map callback (retryQueue s2)) = mset (map item_callback xs)"
    "list_all (\<lambda>q. retries q = 0 \<and> error q = Some (err (callback q))) (retryQueue s2)"
    by blast
  from s2(4) 0(6) have ne: "retryQueue s2 \<noteq> []" by auto
  then obtain q qs where q: "rev (retryQueue s2) = q # qs" by (cases "rev (retryQueue s2)") auto
  then have qin: "q \<in> set (retryQueue s2)" by (metis list.set_intros(1) set_rev)
  with s2(5) have q0: "retries q = 0" "error q = Some (err (callback q))"
    by (auto simp: list_all_iff)
  from qin have "callback q \<in># mset (map callback (retryQueue s2))" by simp
  with s2(4) have cin: "callback q \<in> set (map item_callback xs)" by (metis set_mset_mset)
  let ?s' = "s2\<lparr>promises := [], retryQueue := [], processing := False\<rparr>"
  have "process_round w xs s =
      (Some (LimiterRetryError process_stack ''Retry limit exceeded'' (Some (err (callback q)))), [], ?s')"
    using s2(1,2) ne q q0 0(2) retry_loop_exhausted[of q s2 qs "[]"]
    by (simp add: process_round_alt)
  from process_throw[OF this] s2(3) cin show ?case
    by (intro bexI[of _ "callback q"] exI[of _ ?s']) simp_all
next
  case (Suc k)
  from retrying_round[OF w Suc.prems(1,3,4,5,7,8)] obtain s2 where
    s2: "admit_and_drain w (rev xs) (s\<lparr>processing := True\<rparr>) = (None, s2)"
    "maxRetry s2 = maxRetry s" "onError s2 = onError s" "rejected s2 = []" "inflight s2 = []"
    "mset (calls s2) = mset (calls s) + mset (map item_callback xs)"
    "mset (map callback (retryQueue s2)) = mset (map item_callback xs)"
    "list_all (\<lambda>q. retries q = Suc k \<and> error q = Some (err (callback q))) (retryQueue s2)"
    by blast
  from s2(7) Suc.prems(6) have ne: "retryQueue s2 \<noteq> []" by auto
  define ris where "ris = map (\<lambda>it. it\<lparr>retries := retries it - 1\<rparr>) (rev (retryQueue s2))"
  let ?s3 = "s2\<lparr>retryQueue := []\<rparr>"
  have pos: "\<forall>q\<in>set (rev (retryQueue s2)). 0 < retries q" using s2(8) by (auto simp: list_all_iff)
  have rl: "retry_loop (rev (retryQueue s2)) [] s2 = (None, ris, ?s3)"
    using retry_loop_resubmit[OF pos, of "[]" s2] ne by (simp add: ris_def)
  have rne: "ris \<noteq> []" using ne by (simp add: ris_def)
  have pr: "process_round w xs s = (None, ris, ?s3)"
    using s2(1) ne rl by (simp add: process_round_alt)
  have cb: "map item_callback (map Retry ris) = map callback (rev (retryQueue s2))"
    by (simp add: ris_def comp_def)
  then have mcb: "mset (map item_callback (map Retry ris)) = mset (map item_callback xs)"
    using s2(7) by (simp add: rev_map[symmetric])
  have k': "\<forall>it\<in>set (map Retry ris). item_retries (maxRetry ?s3) it = k"
    using s2(8) by (auto simp: ris_def list_all_iff)
  have "Falsy \<notin> set (map Retry ris)" by auto
  from Suc.IH[of ?s3 "map Retry ris", OF _ _ _ _ _ _ this k'] s2 Suc.prems(1,2) rne
  obtain c s' where c: "c \<in> set (map item_callback (map Retry ris))"
    "process w (map Retry ris) ?s3 =
        (Some (LimiterRetryError process_stack ''Retry limit exceeded'' (Some (err c))), s')"
    "mset (calls s') = mset (calls ?s3) +
        repeat_mset (Suc k) (mset (map item_callback (map Retry ris)))"
    by auto
  from c(1) mcb have cin: "c \<in> set (map item_callback xs)" by (metis set_mset_mset)
  have "process w xs s =
      (Some (LimiterRetryError process_stack ''Retry limit exceeded'' (Some (err c))), s')"
    using process_again[OF pr rne] c(2) by simp
  moreover have "mset (calls s') = mset (calls s) +
      repeat_mset (Suc (Suc k)) (mset (map item_callback xs))"
    using c(3) s2(6) mcb by simp
  ultimately show ?case using cin by (intro bexI[of _ c] exI[of _ s']) simp_all
qed

section \<open>The retry-exhaustion error\<close>

text \<open>
  C8. \<open>new LimiterRetryError(message, error)\<close> for an error object \<open>error\<close> is an
  instance of \<open>LimiterRetryError\<close>, is named \<open>RetryError\<close>, carries the message, has
  \<open>error\<close> as its cause, and its stack is the stack of \<open>error\<close>.
\<close>

theorem LimiterRetryError_wraps:
  "instanceof_LimiterRetryError (LimiterRetryError captured msg (Some e)) \<and>
   ename (LimiterRetryError captured msg (Some e)) = ''RetryError'' \<and>
   message (LimiterRetryError captured msg (Some e)) = msg \<and>
   cause (LimiterRetryError captured msg (Some e)) = Some e \<and>
   stack (LimiterRetryError captured msg (Some e)) = stack e"
  by (simp add: LimiterRetryError_def instanceof_LimiterRetryError_def)

section \<open>Waiting for an idle limiter\<close>

text \<open>
  C9. \<open>done()\<close> called while the processing flag is false resolves at once, without a
  single 10 ms wait; and the flag is false in the state any \<open>process\<close> call leaves
  behind, so \<open>done()\<close> after a \<open>process\<close> call resolves at once.
\<close>

theorem done_idle_immediate:
  "(\<not> isProcessing s \<longrightarrow> done_idle env s = Some 0) \<and>
   done_idle env (snd (process w xs s0)) = Some 0"
  using process_flag[of w xs s0] by (simp add: done_idle.simps isProcessing_def)

theorem done_idle_immediate_witness:
  "\<not> isProcessing (snd (process (\<lambda>c n. (5, None)) [Fn 1, Fn 2] (Limiter 1 None 0 False 0))) \<and>
   done_idle (\<lambda>s. s) (snd (process (\<lambda>c n. (5, None)) [Fn 1, Fn 2] (Limiter 1 None 0 False 0))) = Some 0"
proof -
  have h: "\<not> isProcessing (snd (process (\<lambda>c n. (5, None)) [Fn 1, Fn 2] (Limiter 1 None 0 False 0)))"
    by code_simp
  with done_idle_immediate[of "snd (process (\<lambda>c n. (5, None)) [Fn 1, Fn 2] (Limiter 1 None 0 False 0))" "\<lambda>s. s"]
  show ?thesis by blast
qed

section \<open>The throughput gate, verified\<close>

text \<open>
  C7. With \<open>rps = r > 0\<close>, the two places where a wrapper runs, admission and the
  wake-up of a parked wrapper, invoke the callback only when at least \<open>1000 / r\<close> ms
  have passed since the tick, and the tick then becomes the present time; a wrapper that
  wakes up too early is parked again, until one period after the tick. With \<open>rps\<close>
  unset (or zero) admission invokes the callback at once and leaves the tick alone.
\<close>

theorem throughput_gate:
  "(rps s = Some r \<and> 0 < r \<longrightarrow>
      (calls (admit w it s) = calls s \<or>
       calls (admit w it s) = calls s @ [item_callback it] \<and>
       1000 \<le> (now s - tick s) * int r \<and> tick (admit w it s) = now s) \<and>
      (calls (fire w s) = calls s \<or>
       1000 \<le> (now (fire w s) - tick s) * int r \<and> tick (fire w s) = now (fire w s)) \<and>
      (earliest (inflight s) = Some e \<and> ephase e = Gate \<and>
       (max (now s) (etime e) - tick s) * int r < 1000 \<longrightarrow>
         calls (fire w s) = calls s \<and>
         inflight (fire w s) = remove1 e (inflight s) @
           [\<lparr>epid = epid e, eitem = eitem e, etime = tick s + period r, ephase = Gate\<rparr>])) \<and>
   (rps s = None \<or> rps s = Some 0 \<longrightarrow>
      calls (admit w it s) = calls s @ [item_callback it] \<and> tick (admit w it s) = tick s \<and>
      inflight (admit w it s) = inflight s @
        [\<lparr>epid = nextId s, eitem = it, etime = now s + int (fst (outcome w s it)),
          ephase = Run (snd (outcome w s it))\<rparr>])"
  using gate_admit[of s r w it] gate_fire[of s r w] gate_sleeps_again[of s r e w]
    no_gate_without_rps[of s w it]
  by blast

text \<open>
  Three tasks admitted together at time 100, 100 ms after the tick, at 10 per second: the
  first is invoked at once, the second at 200, and the third, woken at 200 as well, sleeps
  again until 300.
\<close>

definition demo_world :: world where
  "demo_world = (\<lambda>c n. (5, None))"

definition demo_gated :: state where
  "demo_gated = fire demo_world (fire demo_world
     (admit demo_world (Fn 3) (admit demo_world (Fn 2) (admit demo_world (Fn 1)
        ((Limiter 3 (Some 10) 0 False 0)\<lparr>now := 100\<rparr>)))))"

definition demo_parked :: entry where
  "demo_parked = \<lparr>epid = 2, eitem = Fn 3, etime = 200, ephase = Gate\<rparr>"


theorem throughput_gate_witness:
  "rps demo_gated = Some 10 \<and> earliest (inflight demo_gated) = Some demo_parked \<and>
   ephase demo_parked = Gate \<and>
   (max (now demo_gated) (etime demo_parked) - tick demo_gated) * int 10 < 1000 \<and>
   calls (fire demo_world demo_gated) = calls demo_gated \<and>
   inflight (fire demo_world demo_gated) = remove1 demo_parked (inflight demo_gated) @
     [\<lparr>epid = 2, eitem = Fn 3, etime = 300, ephase = Gate\<rparr>] \<and>
   rps (Limiter 3 None 0 False 0) = None \<and>
   calls (admit demo_world (Fn 1) (Limiter 3 None 0 False 0)) = [1]"
proof -
  have h: "rps demo_gated = Some 10" "earliest (inflight demo_gated) = Some demo_parked"
    "ephase demo_parked = Gate" "tick demo_gated = 200"
    "(max (now demo_gated) (etime demo_parked) - tick demo_gated) * int 10 < 1000"
    by code_simp+
  have p: "period 10 = 100" by code_simp
  have g: "rps (Limiter 3 None 0 False 0) = None" "calls (Limiter 3 None 0 False 0) = []"
    by (simp_all add: Limiter_def)
  show ?thesis
    using throughput_gate[of demo_gated 10 demo_world "Fn 1" demo_parked]
      throughput_gate[of "Limiter 3 None 0 False 0" 10 demo_world "Fn 1" demo_parked] h p g
    by (simp add: demo_parked_def)
qed


section \<open>Falsy items\<close>

text \<open>
  C10. A falsy item ends admission: \<open>process\<close> on a sequence that contains one does
  exactly what it does on the items after it, so the falsy item and everything submitted
  before it never run, and nothing is thrown on their account; with nothing after it, a
  new limiter resolves without having done anything.
\<close>

theorem falsy_item_stops_admission:
  "process w (xs @ Falsy # ys) s = process w ys s \<and>
   process w (xs @ [Falsy]) (Limiter l r m oe t) = (None, Limiter l r m oe t)"
proof
  show "process w (xs @ Falsy # ys) s = process w ys s"
    by (simp only: process.simps[of w "xs @ Falsy # ys" s] process.simps[of w ys s]
        process_round_Falsy)
  have "process_round w (xs @ [Falsy]) (Limiter l r m oe t) =
        (None, [], (Limiter l r m oe t)\<lparr>processing := True\<rparr>)"
    by (simp add: process_round_Falsy process_round_def Limiter_def)
  then show "process w (xs @ [Falsy]) (Limiter l r m oe t) = (None, Limiter l r m oe t)"
    by (simp add: process_done Limiter_def)
qed

section \<open>Admission order\<close>



section \<open>The cap on concurrency\<close>



section \<open>Rejection without retries and without a sink\<close>

text \<open>
  C4 as stated fails: a task that fails at once next to a sibling that takes 500 ms makes
  \<open>process\<close> reject with the task's error while the sibling is still running, and
  \<open>length\<close> reads 1.
\<close>

definition boom :: js_error where
  "boom = JsError ErrorClass ''Error'' ''boom'' (Some ''Error: boom'') None"

definition slow_sibling_world :: world where
  "slow_sibling_world = (\<lambda>c n. if c = 2 then (0, Some boom) else (500, None))"




section \<open>Batches\<close>

text \<open>
  C6. On a new limiter with \<open>limit = l \<ge> 1\<close> and no \<open>rps\<close>, when no task fails,
  \<open>process\<close> resolves, every callback has been invoked exactly once (in reverse order of
  submission), and the count has taken exactly these values: for each full batch it climbs
  from 1 to \<open>l\<close> and falls back to 0 before the next task is admitted, and the last
  batch, of \<open>k mod l\<close> tasks, does the same.
\<close>

theorem fill_then_drain:
  assumes "0 < l" and "\<forall>c k. snd (w c k) = None" and "Falsy \<notin> set xs"
  shows "fst (process w xs (Limiter (int l) None m oe t)) = None \<and>
         samples (snd (process w xs (Limiter (int l) None m oe t))) = batches (length xs) l \<and>
         calls (snd (process w xs (Limiter (int l) None m oe t))) = map item_callback (rev xs) \<and>
         length_prop (snd (process w xs (Limiter (int l) None m oe t))) = 0"
proof -
  let ?s0 = "(Limiter (int l) None m oe t)\<lparr>processing := True\<rparr>"
  have c: "calm ?s0 0" by (simp add: calm_def Limiter_def pids_def)
  have "limit ?s0 = int l" by (simp add: Limiter_def)
  from calm_batches[OF assms(2,1) c this, of "rev xs"] assms(3)
  obtain s' where s': "admit_and_drain w (rev xs) ?s0 = (None, s')" "calm s' 0"
    "samples s' = samples ?s0 @ batches (length xs) l"
    "calls s' = calls ?s0 @ map item_callback (rev xs)" by auto
  from s'(2) have "retryQueue s' = []" "promisesCount s' = 0" by (simp_all add: calm_def)
  with s'(1) have "process_round w xs (Limiter (int l) None m oe t) = (None, [], s')"
    by (simp add: process_round_alt)
  from process_done[OF this] s' \<open>promisesCount s' = 0\<close> show ?thesis
    by (simp add: Limiter_def length_prop_def)
qed

theorem fill_then_drain_witness:
  "(0::nat) < 3 \<and> (\<forall>c k. snd (demo_world c k) = None) \<and>
   Falsy \<notin> set (map Fn [1, 2, 3, 4, 5, 6, 7]) \<and>
   fst (process demo_world (map Fn [1, 2, 3, 4, 5, 6, 7]) (Limiter (int 3) None 0 False 0)) = None \<and>
   samples (snd (process demo_world (map Fn [1, 2, 3, 4, 5, 6, 7]) (Limiter (int 3) None 0 False 0))) =
     batches 7 3 \<and>
   batches 7 3 = [1, 2, 3, 2, 1, 0, 1, 2, 3, 2, 1, 0, 1, 0] \<and>
   calls (snd (process demo_world (map Fn [1, 2, 3, 4, 5, 6, 7]) (Limiter (int 3) None 0 False 0))) =
     [7, 6, 5, 4, 3, 2, 1]"
proof -
  have h: "(0::nat) < 3" "\<forall>c k. snd (demo_world c k) = None"
    "Falsy \<notin> set (map Fn [1, 2, 3, 4, 5, 6, 7])"
    by (auto simp: demo_world_def)
  have b: "batches 7 3 = [1, 2, 3, 2, 1, 0, 1, 2, 3, 2, 1, 0, 1, 0]" by code_simp
  have len: "length (map Fn [1, 2, 3, 4, 5, 6, 7]) = 7" by simp
  have c: "map item_callback (rev (map Fn [1, 2, 3, 4, 5, 6, 7])) = [7, 6, 5, 4, 3, 2, 1]"
    by simp
  note t = fill_then_drain[OF h, of 0 False 0, unfolded len c]
  from t h b show ?thesis by blast
qed

section \<open>Retry exhaustion without a sink\<close>

text \<open>
  C2. On a new limiter with \<open>maxRetry = M > 0\<close> and no \<open>onError\<close>, when every
  invocation of every submitted callback \<open>c\<close> fails with \<open>err c\<close>, \<open>process\<close> rejects
  with a \<open>LimiterRetryError\<close> whose cause is the error of one of the submitted tasks (of
  the task, when there is one), and by then every submitted callback has been invoked
  exactly \<open>M + 1\<close> times.
\<close>

theorem retry_exhaustion_rejects:
  assumes "0 < M" and "\<forall>c n. snd (w c n) = Some (err c)" and "cs \<noteq> []"
  shows "\<exists>c\<in>set cs. \<exists>e s'.
      process w (map Fn cs) (Limiter l r M False t) = (Some e, s') \<and>
      e = LimiterRetryError process_stack ''Retry limit exceeded'' (Some (err c)) \<and>
      instanceof_LimiterRetryError e \<and> cause e = Some (err c) \<and>
      mset (calls s') = repeat_mset (Suc M) (mset cs)"
proof -
  let ?s = "Limiter l r M False t"
  have "\<forall>it\<in>set (map Fn cs). item_retries (maxRetry ?s) it = M" by (simp add: Limiter_def)
  moreover have "Falsy \<notin> set (map Fn cs)" "map Fn cs \<noteq> []" using assms(3) by auto
  moreover have "0 < maxRetry ?s" "\<not> onError ?s" "rejected ?s = []" "inflight ?s = []"
    "retryQueue ?s = []" using assms(1) by (simp_all add: Limiter_def)
  ultimately obtain c s' where c: "c \<in> set (map item_callback (map Fn cs))"
    "process w (map Fn cs) ?s =
       (Some (LimiterRetryError process_stack ''Retry limit exceeded'' (Some (err c))), s')"
    "mset (calls s') = mset (calls ?s) + repeat_mset (Suc M) (mset (map item_callback (map Fn cs)))"
    using retry_exhaustion[OF assms(2), of ?s "map Fn cs" M] by blast
  have m: "map item_callback (map Fn cs) = cs" by (simp add: comp_def)
  have c1: "c \<in> set cs" using c(1) unfolding m .
  have c3: "mset (calls s') = repeat_mset (Suc M) (mset cs)"
    using c(3) unfolding m by (simp add: Limiter_def)
  have i: "instanceof_LimiterRetryError
      (LimiterRetryError process_stack ''Retry limit exceeded'' (Some (err c)))"
    "cause (LimiterRetryError process_stack ''Retry limit exceeded'' (Some (err c))) = Some (err c)"
    by (simp_all add: LimiterRetryError_def instanceof_LimiterRetryError_def)
  from c1 c(2) c3 i show ?thesis by blast
qed

text \<open>One task that always fails with \<open>boom\<close>, two retries: three invocations.\<close>

definition always_boom :: world where
  "always_boom = (\<lambda>c n. (5, Some boom))"

theorem retry_exhaustion_rejects_witness:
  "(0::nat) < 2 \<and> (\<forall>c n. snd (always_boom c n) = Some boom) \<and> [1::nat] \<noteq> [] \<and>
   (\<exists>c\<in>set [1]. \<exists>e s'.
      process always_boom (map Fn [1]) (Limiter 3 None 2 False 0) = (Some e, s') \<and>
      e = LimiterRetryError process_stack ''Retry limit exceeded'' (Some boom) \<and>
      instanceof_LimiterRetryError e \<and> cause e = Some boom \<and>
      mset (calls s') = repeat_mset (Suc 2) (mset [1])) \<and>
   calls (snd (process always_boom (map Fn [1]) (Limiter 3 None 2 False 0))) = [1, 1, 1]"
proof -
  have h: "(0::nat) < 2" "\<forall>c n. snd (always_boom c n) = Some ((\<lambda>c. boom) c)" "[1::nat] \<noteq> []"
    by (simp_all add: always_boom_def)
  have e: "calls (snd (process always_boom (map Fn [1]) (Limiter 3 None 2 False 0))) = [1, 1, 1]"
    by code_simp
  from retry_exhaustion_rejects[OF h, of 3 None 0] h e show ?thesis by simp
qed

section \<open>With an error sink\<close>

lemma execute_sink: "onError s \<Longrightarrow> \<exists>s'. execute w s = (None, s') \<and> onError s'"
  by (simp add: execute_def Let_def split: option.splits prod.splits)

lemma admit_loop_sink: "onError s \<Longrightarrow> \<exists>s'. admit_loop w xs s = (None, s') \<and> onError s'"
proof (induction xs arbitrary: s)
  case Nil then show ?case by simp
next
  case (Cons x xs)
  show ?case
  proof (cases "x = Falsy")
    case True with Cons.prems show ?thesis by simp
  next
    case False
    obtain s1 where s1: "(if promisesCount s \<ge> limit s then execute w s else (None, s)) = (None, s1)"
      "onError s1"
      using execute_sink[OF Cons.prems, of w] Cons.prems by (cases "promisesCount s \<ge> limit s") auto
    from Cons.IH[of "admit w x s1"] s1(2) obtain s' where
      "admit_loop w xs (admit w x s1) = (None, s')" "onError s'" by auto
    with s1 False show ?thesis by (intro exI[of _ s']) simp
  qed
qed

text \<open>
  With a sink, the second loop of \<open>process\<close> passes every exhausted item to it, wrapped,
  once, and collects the others with one retry less.
\<close>

definition exhausted_errors :: "retry_item list \<Rightarrow> js_error list" where
  "exhausted_errors q =
     map (\<lambda>it. LimiterRetryError process_stack ''Retry limit exceeded'' (error it))
       (filter (\<lambda>it. retries it = 0) q)"

definition resubmitted :: "retry_item list \<Rightarrow> retry_item list" where
  "resubmitted q = map (\<lambda>it. it\<lparr>retries := retries it - 1\<rparr>) (filter (\<lambda>it. 0 < retries it) q)"

lemma retry_loop_sink:
  "onError s \<Longrightarrow>
   retry_loop q acc s =
     (None, acc @ resubmitted q,
      if q = [] then s else s\<lparr>retryQueue := [], sink := sink s @ exhausted_errors q\<rparr>)"
proof (induction q arbitrary: acc s)
  case Nil then show ?case by (simp add: resubmitted_def)
next
  case (Cons it q)
  show ?case
  proof (cases "0 < retries it")
    case True
    with Cons.IH[of "s\<lparr>retryQueue := rev q\<rparr>" "acc @ [it\<lparr>retries := retries it - 1\<rparr>]"] Cons.prems
    show ?thesis
      by (cases "q = []") (simp_all add: Let_def resubmitted_def exhausted_errors_def)
  next
    case False
    with Cons.IH[of "s\<lparr>retryQueue := rev q,
        sink := sink s @ [LimiterRetryError process_stack ''Retry limit exceeded'' (error it)]\<rparr>" acc]
      Cons.prems
    show ?thesis
      by (cases "q = []") (simp_all add: Let_def resubmitted_def exhausted_errors_def)
  qed
qed

lemma process_round_sink:
  assumes "onError s"
  shows "\<exists>ris s'. process_round w xs s = (None, ris, s') \<and> onError s'"
proof -
  from admit_loop_sink[of "s\<lparr>processing := True\<rparr>" w "rev xs"] assms obtain s1 where
    s1: "admit_loop w (rev xs) (s\<lparr>processing := True\<rparr>) = (None, s1)" "onError s1" by auto
  obtain s2 where s2: "(if promises s1 \<noteq> [] then execute w s1 else (None, s1)) = (None, s2)"
    "onError s2"
    using execute_sink[OF s1(2), of w] s1(2) by (cases "promises s1 \<noteq> []") auto
  show ?thesis
  proof (cases "retryQueue s2 = []")
    case True
    with s1 s2 show ?thesis by (simp add: process_round_def)
  next
    case False
    from retry_loop_sink[OF s2(2), of "rev (retryQueue s2)" "[]"] False s1 s2
    show ?thesis by (simp add: process_round_def)
  qed
qed

lemma process_sink: "onError s \<Longrightarrow> fst (process w xs s) = None"
proof (induction w xs s rule: process_induct)
  case (round w xs s)
  from process_round_sink[OF round.prems, of w xs] obtain ris s1 where
    pr: "process_round w xs s = (None, ris, s1)" "onError s1" by auto
  show ?case
  proof (cases "ris = []")
    case True with pr show ?thesis by (simp add: process_done)
  next
    case False
    from round.IH[OF pr(1) False pr(2)] pr(1) False show ?thesis
      by (auto simp: process_again split: prod.splits option.splits)
  qed
qed

text \<open>
  The errors of the failing invocations in a log of calls: the \<open>n\<close>-th invocation of
  \<open>c\<close> ends as \<open>w c n\<close> says.
\<close>

fun failures :: "world \<Rightarrow> nat list \<Rightarrow> nat list \<Rightarrow> js_error list" where
  "failures w prev [] = []"
| "failures w prev (c # cs) =
     (case snd (w c (count_list prev c)) of None \<Rightarrow> [] | Some e \<Rightarrow> [e]) @
     failures w (prev @ [c]) cs"

lemma failures_snoc:
  "failures w prev (cs @ [c]) =
     failures w prev cs @ (case snd (w c (count_list (prev @ cs) c)) of None \<Rightarrow> [] | Some e \<Rightarrow> [e])"
  by (induction cs arbitrary: prev) simp_all

text \<open>
  The reasons of the rejected promises that still wait in \<open>#promises\<close> for their
  handler, and the errors of the invocations under way.
\<close>

definition unforwarded :: "state \<Rightarrow> js_error multiset" where
  "unforwarded s = mset (map snd (filter (\<lambda>x. fst x \<in> set (promises s)) (rejected s)))"

fun doom :: "entry \<Rightarrow> js_error list" where
  "doom e = (case ephase e of Run (Some err) \<Rightarrow> [err] | _ \<Rightarrow> [])"

definition doomed :: "state \<Rightarrow> js_error multiset" where
  "doomed s = mset (concat (map doom (inflight s)))"

definition sinking :: "world \<Rightarrow> state \<Rightarrow> bool" where
  "sinking w s \<longleftrightarrow> maxRetry s = 0 \<and> retryQueue s = [] \<and> wf_rt s \<and>
     distinct (map fst (rejected s)) \<and>
     distinct (promises s) \<and> list_all (\<lambda>p. p < nextId s) (promises s) \<and>
     list_all (\<lambda>p. p < nextId s) (handled s) \<and>
     list_all (\<lambda>p. p \<notin> set (handled s)) (promises s) \<and>
     list_all (\<lambda>p. p \<in> set (promises s) \<or> p \<in> set (handled s)) (pids s) \<and>
     mset (sink s) + unforwarded s + doomed s = mset (failures w [] (calls s))"

lemma mset_concat_remove1:
  "e \<in> set xs \<Longrightarrow> mset (concat (map g (remove1 e xs))) + mset (g e) = mset (concat (map g xs))"
  by (induction xs) auto

lemma sinking_fire:
  assumes s: "sinking w s"
  shows "sinking w (fire w s)"
proof (cases "inflight s = []")
  case True with s show ?thesis by (simp add: fire_None)
next
  case False
  from s have m: "maxRetry s = 0" "retryQueue s = []" and wf: "wf_rt s"
    and dr: "distinct (map fst (rejected s))"
    and dp: "distinct (promises s)" and bp: "list_all (\<lambda>p. p < nextId s) (promises s)"
    and bh: "list_all (\<lambda>p. p < nextId s) (handled s)"
    and dj: "list_all (\<lambda>p. p \<notin> set (handled s)) (promises s)"
    and cov: "list_all (\<lambda>p. p \<in> set (promises s) \<or> p \<in> set (handled s)) (pids s)"
    and acc: "mset (sink s) + unforwarded s + doomed s = mset (failures w [] (calls s))"
    by (simp_all add: sinking_def)
  have wf': "wf_rt (fire w s)" "retryQueue (fire w s) = []"
    using wf m fire_no_retry[of s w] by (simp_all add: wf_rt_fire)
  from False show ?thesis
  proof (cases rule: fire_elim[where w=w])
    case (Settle e res s1)
    have sub: "set (remove1 e (inflight s)) \<subseteq> set (inflight s)" by (rule set_remove1_subset)
    have pin: "epid e \<in> set (pids s)" using Settle(2) by (simp add: pids_def)
    have cov': "list_all (\<lambda>p. p \<in> set (promises s) \<or> p \<in> set (handled s)) (pids (fire w s))"
      using cov sub Settle(4) by (auto simp: Settle(5) pids_def list_all_iff)
    have dm: "doomed (fire w s) + mset (doom e) = doomed s"
      using mset_concat_remove1[OF Settle(2), of doom] Settle(4)
      by (simp add: Settle(5) doomed_def)
    show ?thesis
    proof (cases res)
      case None
      then have "doom e = []" using Settle(3) by simp
      with dm have "doomed (fire w s) = doomed s" by simp
      with None m wf' dr dp bp bh dj cov' acc Settle(4) show ?thesis
        by (simp add: sinking_def Settle(5) unforwarded_def)
    next
      case (Some err)
      then have "doom e = [err]" using Settle(3) by simp
      with dm have dm': "doomed (fire w s) + {#err#} = doomed s" by simp
      have nr: "epid e \<notin> fst ` set (rejected s)"
        using wf pin by (auto simp: wf_rt_def list_all_iff)
      have r: "rejected (fire w s) = rejected s @ [(epid e, err)]"
        "sink (fire w s) = (if epid e \<in> set (handled s) then sink s @ [err] else sink s)"
        using m Settle(4) by (simp_all add: Settle(5) Some)
      have one: "epid e \<in> set (handled s) \<longleftrightarrow> epid e \<notin> set (promises s)"
        using cov dj pin by (auto simp: list_all_iff)
      have su: "mset (sink (fire w s)) + unforwarded (fire w s) = mset (sink s) + unforwarded s + {#err#}"
        using r one Settle(4) by (simp add: unforwarded_def Settle(5))
      have cs: "calls (fire w s) = calls s" using Settle(4) by (simp add: Settle(5))
      have "mset (sink (fire w s)) + unforwarded (fire w s) + doomed (fire w s) =
          mset (sink s) + unforwarded s + {#err#} + doomed (fire w s)"
        by (simp only: su)
      also have "\<dots> = mset (sink s) + unforwarded s + (doomed (fire w s) + {#err#})"
        by (simp add: ac_simps)
      also have "\<dots> = mset (sink s) + unforwarded s + doomed s" by (simp only: dm')
      also have "\<dots> = mset (failures w [] (calls (fire w s)))" by (simp only: acc cs)
      finally have "mset (sink (fire w s)) + unforwarded (fire w s) + doomed (fire w s) =
          mset (failures w [] (calls (fire w s)))" .
      moreover have "distinct (map fst (rejected (fire w s)))" using r(1) dr nr by simp
      ultimately show ?thesis using m wf' dp bp bh dj cov' Settle(4)
        by (simp add: sinking_def Settle(5))
    qed
  next
    case (Park e r s1)
    have sub: "set (remove1 e (inflight s)) \<subseteq> set (inflight s)" by (rule set_remove1_subset)
    have pin: "epid e \<in> set (pids s)" using Park(2) by (simp add: pids_def)
    have cov': "list_all (\<lambda>p. p \<in> set (promises s) \<or> p \<in> set (handled s)) (pids (fire w s))"
      using cov sub pin Park(4) by (auto simp: Park(8) pids_def list_all_iff)
    have "doom e = []" using Park(3) by simp
    with mset_concat_remove1[OF Park(2), of doom] Park(4)
    have "doomed (fire w s) = doomed s" by (simp add: Park(8) doomed_def)
    with m wf' dr dp bp bh dj cov' acc Park(4) show ?thesis
      by (simp add: sinking_def Park(8) unforwarded_def)
  next
    case (Invoke e s1 t)
    have sub: "set (remove1 e (inflight s)) \<subseteq> set (inflight s)" by (rule set_remove1_subset)
    have pin: "epid e \<in> set (pids s)" using Invoke(2) by (simp add: pids_def)
    have cov': "list_all (\<lambda>p. p \<in> set (promises s) \<or> p \<in> set (handled s)) (pids (fire w s))"
      using cov sub pin Invoke(4) by (auto simp: Invoke(5) pids_def list_all_iff)
    let ?o = "snd (w (item_callback (eitem e)) (count_list (calls s) (item_callback (eitem e))))"
    have de: "doom e = []" using Invoke(3) by simp
    have d: "doomed (fire w s) = doomed s + mset (case ?o of None \<Rightarrow> [] | Some x \<Rightarrow> [x])"
      using mset_concat_remove1[OF Invoke(2), of doom] Invoke(4) de
      by (cases ?o) (simp_all add: Invoke(5) doomed_def outcome_def)
    have f: "mset (failures w [] (calls (fire w s))) =
        mset (failures w [] (calls s)) + mset (case ?o of None \<Rightarrow> [] | Some x \<Rightarrow> [x])"
      using Invoke(4) by (simp add: Invoke(5) failures_snoc)
    have su: "sink (fire w s) = sink s" "unforwarded (fire w s) = unforwarded s"
      using Invoke(4) by (simp_all add: Invoke(5) unforwarded_def)
    have "mset (sink (fire w s)) + unforwarded (fire w s) + doomed (fire w s) =
        (mset (sink s) + unforwarded s + doomed s) + mset (case ?o of None \<Rightarrow> [] | Some x \<Rightarrow> [x])"
      by (simp only: su d add.assoc)
    also have "\<dots> = mset (failures w [] (calls (fire w s)))" by (simp only: acc f)
    finally have "mset (sink (fire w s)) + unforwarded (fire w s) + doomed (fire w s) =
          mset (failures w [] (calls (fire w s)))" .
    with m wf' dr dp bp bh dj cov' Invoke(4) show ?thesis
      by (simp add: sinking_def Invoke(5))
  qed
qed

lemma fold_attach_effect:
  "sink (fold attach_catch ps s) =
     sink s @ concat (map (\<lambda>p. case map_of (rejected s) p of Some e \<Rightarrow> [e] | None \<Rightarrow> []) ps) \<and>
   set (handled (fold attach_catch ps s)) =
     set (handled s) \<union> {p \<in> set ps. map_of (rejected s) p = None \<and> is_pending s p}"
proof (induction ps arbitrary: s)
  case Nil then show ?case by simp
next
  case (Cons p ps)
  have k: "rejected (attach_catch p s) = rejected s"
    "\<And>q. is_pending (attach_catch p s) q = is_pending s q"
    by (simp_all add: is_pending_def)
  show ?case
  proof (cases "map_of (rejected s) p")
    case None
    then have a: "sink (attach_catch p s) = sink s"
      "set (handled (attach_catch p s)) = set (handled s) \<union> (if is_pending s p then {p} else {})"
      by (simp_all add: attach_catch_def)
    from Cons.IH[of "attach_catch p s"] None a k show ?thesis by auto
  next
    case (Some e)
    then have a: "sink (attach_catch p s) = sink s @ [e]"
      "handled (attach_catch p s) = handled s"
      by (simp_all add: attach_catch_def)
    from Cons.IH[of "attach_catch p s"] Some a k show ?thesis by auto
  qed
qed

lemma forwarded_step:
  "map_of R p0 = None \<Longrightarrow> distinct ps \<Longrightarrow>
   mset (concat (map (\<lambda>p. case (if p = p0 then Some e0 else map_of R p) of
                              Some e \<Rightarrow> [e] | None \<Rightarrow> []) ps)) =
   (if p0 \<in> set ps then {#e0#} else {#}) +
   mset (concat (map (\<lambda>p. case map_of R p of Some e \<Rightarrow> [e] | None \<Rightarrow> []) ps))"
  by (induction ps) auto

lemma forwarded_mset:
  "distinct ps \<Longrightarrow> distinct (map fst R) \<Longrightarrow>
   mset (concat (map (\<lambda>p. case map_of R p of Some e \<Rightarrow> [e] | None \<Rightarrow> []) ps)) =
   mset (map snd (filter (\<lambda>x. fst x \<in> set ps) R))"
proof (induction R)
  case Nil then show ?case by simp
next
  case (Cons x R)
  obtain p0 e0 where x: "x = (p0, e0)" by (cases x)
  from Cons.prems x have n: "map_of R p0 = None" by (simp add: map_of_eq_None_iff)
  have "(\<lambda>p. case map_of (x # R) p of Some e \<Rightarrow> [e] | None \<Rightarrow> []) =
        (\<lambda>p. case (if p = p0 then Some e0 else map_of R p) of Some e \<Rightarrow> [e] | None \<Rightarrow> [])"
    by (auto simp: x fun_eq_iff)
  with forwarded_step[OF n Cons.prems(1), of e0] Cons.IH Cons.prems x show ?case by simp
qed

lemma sinking_processing: "sinking w s \<Longrightarrow> sinking w (s\<lparr>processing := f\<rparr>)"
  by (simp add: sinking_def wf_rt_def unforwarded_def doomed_def)

lemma sinking_clear:
  assumes "sinking w s" "unforwarded s = {#}" "list_all (\<lambda>p. p \<in> set (handled s)) (pids s)"
  shows "sinking w (s\<lparr>promises := []\<rparr>)"
proof -
  have "unforwarded (s\<lparr>promises := []\<rparr>) = {#}" "doomed (s\<lparr>promises := []\<rparr>) = doomed s"
    "wf_rt (s\<lparr>promises := []\<rparr>) = wf_rt s"
    by (simp_all add: unforwarded_def doomed_def wf_rt_def)
  with assms show ?thesis by (simp add: sinking_def)
qed

lemma sinking_await_all: "sinking w s \<Longrightarrow> sinking w (await_all w ps s)"
  by (rule await_all_rule) (simp_all add: sinking_fire)

lemma sinking_execute:
  assumes s: "sinking w s" and oe: "onError s" and ex: "execute w s = (r, s')"
  shows "sinking w s' \<and> promises s' = []"
proof -
  let ?s1 = "await_all w (promises s) s"
  have s1: "sinking w ?s1" using s by (rule sinking_await_all)
  then have m: "maxRetry ?s1 = 0" "retryQueue ?s1 = []" and wf: "wf_rt ?s1"
    and dr: "distinct (map fst (rejected ?s1))"
    and dp: "distinct (promises s)" and bp: "list_all (\<lambda>p. p < nextId ?s1) (promises s)"
    and bh: "list_all (\<lambda>p. p < nextId ?s1) (handled ?s1)"
    and dj: "list_all (\<lambda>p. p \<notin> set (handled ?s1)) (promises s)"
    and cov: "list_all (\<lambda>p. p \<in> set (promises s) \<or> p \<in> set (handled ?s1)) (pids ?s1)"
    and acc: "mset (sink ?s1) + unforwarded ?s1 + doomed ?s1 = mset (failures w [] (calls ?s1))"
    by (simp_all add: sinking_def)
  have rp: "\<And>p. p \<in> set (pids ?s1) \<Longrightarrow> map_of (rejected ?s1) p = None"
    using wf by (auto simp: wf_rt_def list_all_iff map_of_eq_None_iff)
  show ?thesis
  proof (cases "find (\<lambda>(p, err). p \<in> set (promises ?s1)) (rejected ?s1)")
    case None
    then have e: "execute w s = (None, ?s1\<lparr>promises := []\<rparr>)" by (simp add: execute_def Let_def)
    from None have nr: "\<not> list_ex (is_rejected ?s1) (promises s)"
      by (auto simp: find_None_iff list_ex_iff is_rejected_def)
    from None have u: "unforwarded ?s1 = {#}"
      by (auto simp: find_None_iff unforwarded_def filter_empty_conv)
    have cov': "list_all (\<lambda>p. p \<in> set (handled ?s1)) (pids ?s1)"
    proof (cases "inflight ?s1 = []")
      case True then show ?thesis by (simp add: pids_def)
    next
      case False
      with await_all_post[of w "promises s" s] nr
      have "\<not> list_ex (is_pending ?s1) (promises s)" by (simp add: all_settled_def)
      then have "\<forall>p\<in>set (pids ?s1). p \<notin> set (promises s)"
        by (auto simp: list_ex_iff is_pending_def pids_def)
      with cov show ?thesis by (auto simp: list_all_iff)
    qed
    have "sinking w (?s1\<lparr>promises := []\<rparr>)" using s1 u cov' by (rule sinking_clear)
    with e ex show ?thesis by simp
  next
    case (Some x)
    let ?s2 = "fold attach_catch (rev (promises ?s1)) ?s1"
    from Some oe have e: "execute w s = (None, ?s2\<lparr>promises := []\<rparr>)"
      by (simp add: execute_def Let_def split: prod.splits)
    note fe = fold_attach_effect[of "rev (promises s)" ?s1]
    have "mset (sink ?s2) = mset (sink ?s1) + unforwarded ?s1"
      using fe forwarded_mset[of "rev (promises s)" "rejected ?s1"] dp dr
      by (simp add: unforwarded_def)
    then have acc': "mset (sink ?s2) + doomed ?s2 = mset (failures w [] (calls ?s2))"
      using acc by (simp add: doomed_def fold_attach_fields)
    have h: "set (handled ?s2) =
        set (handled ?s1) \<union> {p \<in> set (promises s). map_of (rejected ?s1) p = None \<and> is_pending ?s1 p}"
      using fe by simp
    have cov': "list_all (\<lambda>p. p \<in> set (handled ?s2)) (pids ?s2)"
      unfolding list_all_iff
    proof
      fix p assume "p \<in> set (pids ?s2)"
      then have p: "p \<in> set (pids ?s1)" by (simp add: pids_def fold_attach_fields)
      then have "is_pending ?s1 p" by (simp add: is_pending_def pids_def)
      with rp[OF p] cov p h show "p \<in> set (handled ?s2)" by (auto simp: list_all_iff)
    qed
    have bh': "list_all (\<lambda>p. p < nextId ?s2) (handled ?s2)"
      using bh bp h by (auto simp: list_all_iff)
    have wf2: "wf_rt ?s2" using wf by (simp add: wf_rt_def pids_def fold_attach_fields)
    have u2: "unforwarded (?s2\<lparr>promises := []\<rparr>) = {#}"
      "doomed (?s2\<lparr>promises := []\<rparr>) = doomed ?s2"
      "wf_rt (?s2\<lparr>promises := []\<rparr>) = wf_rt ?s2"
      by (simp_all add: unforwarded_def doomed_def wf_rt_def)
    have "sinking w (?s2\<lparr>promises := []\<rparr>)"
      unfolding sinking_def u2 using m dr bh' cov' acc' wf2 by (simp add: fold_attach_fields)
    with e ex show ?thesis by simp
  qed
qed

lemma sinking_admit:
  assumes s: "sinking w s"
  shows "sinking w (admit w it s)"
proof -
  from s have m: "maxRetry s = 0" "retryQueue s = []" and wf: "wf_rt s"
    and dr: "distinct (map fst (rejected s))"
    and dp: "distinct (promises s)" and bp: "list_all (\<lambda>p. p < nextId s) (promises s)"
    and bh: "list_all (\<lambda>p. p < nextId s) (handled s)"
    and dj: "list_all (\<lambda>p. p \<notin> set (handled s)) (promises s)"
    and cov: "list_all (\<lambda>p. p \<in> set (promises s) \<or> p \<in> set (handled s)) (pids s)"
    and acc: "mset (sink s) + unforwarded s + doomed s = mset (failures w [] (calls s))"
    by (simp_all add: sinking_def)
  let ?o = "snd (w (item_callback it) (count_list (calls s) (item_callback it)))"
  from admit_entry[of w it s] obtain e' where e': "inflight (admit w it s) = inflight s @ [e']"
    "ephase e' = Gate \<and> calls (admit w it s) = calls s \<or>
     ephase e' = Run ?o \<and> calls (admit w it s) = calls s @ [item_callback it]"
    unfolding outcome_def by blast
  have nr: "\<forall>x\<in>set (rejected s). fst x \<noteq> nextId s"
    using wf by (auto simp: wf_rt_def list_all_iff)
  have u: "unforwarded (admit w it s) = unforwarded s"
  proof -
    have "filter (\<lambda>x. fst x \<in> set (promises s @ [nextId s])) (rejected s) =
          filter (\<lambda>x. fst x \<in> set (promises s)) (rejected s)"
      using nr by (intro filter_cong) auto
    then show ?thesis by (simp add: unforwarded_def)
  qed
  have X: "doomed (admit w it s) + mset (failures w [] (calls s)) =
        doomed s + mset (failures w [] (calls (admit w it s)))"
    using e' by (cases ?o) (auto simp: doomed_def failures_snoc)
  have "(mset (sink s) + unforwarded s + doomed (admit w it s)) + mset (failures w [] (calls s)) =
        mset (sink s) + unforwarded s + (doomed (admit w it s) + mset (failures w [] (calls s)))"
    by (simp only: add.assoc)
  also have "\<dots> = mset (sink s) + unforwarded s + (doomed s + mset (failures w [] (calls (admit w it s))))"
    by (simp only: X)
  also have "\<dots> = (mset (sink s) + unforwarded s + doomed s) + mset (failures w [] (calls (admit w it s)))"
    by (simp only: add.assoc)
  also have "\<dots> = mset (failures w [] (calls s)) + mset (failures w [] (calls (admit w it s)))"
    by (simp only: acc)
  also have "\<dots> = mset (failures w [] (calls (admit w it s))) + mset (failures w [] (calls s))"
    by (rule add.commute)
  finally have "mset (sink s) + unforwarded s + doomed (admit w it s) =
      mset (failures w [] (calls (admit w it s)))"
    by (rule add_right_imp_eq)
  then have acc': "mset (sink (admit w it s)) + unforwarded (admit w it s) + doomed (admit w it s) =
        mset (failures w [] (calls (admit w it s)))"
    by (simp only: u admit_keeps)
  have 1: "distinct (promises (admit w it s))" using dp bp by (auto simp: list_all_iff)
  have 2: "list_all (\<lambda>p. p < nextId (admit w it s)) (promises (admit w it s))"
    "list_all (\<lambda>p. p < nextId (admit w it s)) (handled (admit w it s))"
    using bp bh by (auto simp: list_all_iff)
  have 3: "list_all (\<lambda>p. p \<notin> set (handled (admit w it s))) (promises (admit w it s))"
    using dj bh by (auto simp: list_all_iff)
  have 4: "list_all (\<lambda>p. p \<in> set (promises (admit w it s)) \<or> p \<in> set (handled (admit w it s)))
      (pids (admit w it s))"
    using cov by (auto simp: list_all_iff pids_admit)
  show ?thesis
    unfolding sinking_def using m wf_rt_admit[OF wf, of w it] dr 1 2 3 4 acc' by simp
qed

lemma sinking_admit_loop:
  "sinking w s \<Longrightarrow> onError s \<Longrightarrow> admit_loop w xs s = (r, s') \<Longrightarrow> sinking w s'"
proof (induction xs arbitrary: s)
  case Nil then show ?case by simp
next
  case (Cons x xs)
  show ?case
  proof (cases "x = Falsy")
    case True with Cons.prems show ?thesis by simp
  next
    case False
    obtain r1 s1 where ex: "(if promisesCount s \<ge> limit s then execute w s else (None, s)) = (r1, s1)"
      by (cases "(if promisesCount s \<ge> limit s then execute w s else (None, s))") auto
    have s1: "sinking w s1 \<and> onError s1"
    proof (cases "promisesCount s \<ge> limit s")
      case True
      with ex have "execute w s = (r1, s1)" by simp
      from sinking_execute[OF Cons.prems(1,2) this] execute_keeps(4)[OF this] Cons.prems(2)
      show ?thesis by simp
    next
      case False with ex Cons.prems show ?thesis by simp
    qed
    have "r1 = None" using execute_sink[OF Cons.prems(2), of w] ex by (auto split: if_splits)
    with Cons.prems(3) False ex have "admit_loop w xs (admit w x s1) = (r, s')" by simp
    from Cons.IH[OF sinking_admit _ this] s1 show ?thesis by simp
  qed
qed

lemma sinking_process:
  assumes "sinking w s" "onError s"
  shows "sinking w (snd (process w xs s)) \<and> promises (snd (process w xs s)) = [] \<and>
         admitted (snd (process w xs s)) = admitted s @ truthy_prefix (rev xs)"
proof -
  let ?s0 = "s\<lparr>processing := True\<rparr>"
  have s0: "sinking w ?s0" "onError ?s0"
    using assms by (simp_all add: sinking_processing)
  from admit_loop_sink[OF s0(2), of w "rev xs"] obtain s1 where
    s1: "admit_loop w (rev xs) ?s0 = (None, s1)" "onError s1" by auto
  from sinking_admit_loop[OF s0 s1(1)] have k1: "sinking w s1" .
  from admit_loop_admitted[OF s1(1)] have a1: "admitted s1 = admitted s @ truthy_prefix (rev xs)"
    by auto
  obtain s2 where s2: "(if promises s1 \<noteq> [] then execute w s1 else (None, s1)) = (None, s2)"
    using execute_sink[OF s1(2), of w] by (cases "promises s1 \<noteq> []") auto
  have k2: "sinking w s2 \<and> promises s2 = [] \<and> admitted s2 = admitted s1"
  proof (cases "promises s1 \<noteq> []")
    case True
    with s2 have "execute w s1 = (None, s2)" by simp
    from sinking_execute[OF k1 s1(2) this] execute_keeps(6)[OF this] show ?thesis by simp
  next
    case False with s2 k1 show ?thesis by simp
  qed
  then have "retryQueue s2 = []" by (simp add: sinking_def)
  with s1 s2 have "process_round w xs s = (None, [], s2)" by (simp add: process_round_def)
  from process_done[OF this] k2 a1 sinking_processing[of w s2 False] show ?thesis
    by simp
qed

text \<open>Every admitted item has been invoked once or waits at the gate.\<close>

definition tally :: "state \<Rightarrow> nat multiset" where
  "tally s = mset (calls s) + gate_cbs s"

definition served :: "state \<Rightarrow> state \<Rightarrow> bool" where
  "served s0 s \<longleftrightarrow>
     (\<exists>zs. admitted s = admitted s0 @ zs \<and> tally s = tally s0 + mset (map item_callback zs))"

lemma tally_fire: "tally (fire w s) = tally s"
proof (cases "inflight s = []")
  case True then show ?thesis by (simp add: fire_None)
next
  case False
  define f :: "entry \<Rightarrow> nat" where "f = (\<lambda>e. item_callback (eitem e))"
  from False show ?thesis
  proof (cases rule: fire_elim[where w=w])
    case (Settle e res s1)
    have "gate_cbs (fire w s) = gate_cbs s"
      using mset_map_filter_remove1[OF Settle(2), of f "\<lambda>e. ephase e = Gate"] Settle(3,4)
      by (simp add: Settle(5) gate_cbs_def f_def)
    moreover have "calls (fire w s) = calls s" using Settle(4) by (simp add: Settle(5))
    ultimately show ?thesis by (simp add: tally_def)
  next
    case (Park e r s1)
    have "gate_cbs (fire w s) = gate_cbs s"
      using mset_map_filter_remove1[OF Park(2), of f "\<lambda>e. ephase e = Gate"] Park(3,4)
      by (simp add: Park(8) gate_cbs_def f_def)
    moreover have "calls (fire w s) = calls s" using Park(4) by (simp add: Park(8))
    ultimately show ?thesis by (simp add: tally_def)
  next
    case (Invoke e s1 t)
    have g: "gate_cbs (fire w s) + {#f e#} = gate_cbs s"
      using mset_map_filter_remove1[OF Invoke(2), of f "\<lambda>e. ephase e = Gate"] Invoke(3,4)
      by (simp add: Invoke(5) gate_cbs_def f_def)
    have c: "mset (calls (fire w s)) = mset (calls s) + {#f e#}"
      using Invoke(4) by (simp add: Invoke(5) f_def)
    show ?thesis unfolding tally_def using g c by (metis add.assoc add.commute)
  qed
qed

lemma tally_admit: "tally (admit w it s) = tally s + {#item_callback it#}"
proof -
  from admit_entry[of w it s] obtain e' where e': "inflight (admit w it s) = inflight s @ [e']"
    "eitem e' = it"
    "ephase e' = Gate \<and> calls (admit w it s) = calls s \<or>
     ephase e' = Run (snd (outcome w s it)) \<and> calls (admit w it s) = calls s @ [item_callback it]"
    by blast
  then show ?thesis by (auto simp: tally_def gate_cbs_def)
qed

lemma served_fire: "served s0 s \<Longrightarrow> served s0 (fire w s)"
  by (simp add: served_def tally_fire)

lemma served_admit: "served s0 s \<Longrightarrow> served s0 (admit w it s)"
proof -
  assume "served s0 s"
  then obtain zs where zs: "admitted s = admitted s0 @ zs"
    "tally s = tally s0 + mset (map item_callback zs)"
    by (auto simp: served_def)
  then show ?thesis unfolding served_def
    by (intro exI[of _ "zs @ [it]"]) (simp add: tally_admit)
qed

lemma stable_served: "stable w (served s0)"
proof (rule stableI)
  show "\<And>s. served s0 s \<Longrightarrow> served s0 (fire w s)" by (rule served_fire)
  show "\<And>s it. served s0 s \<Longrightarrow> it \<noteq> Falsy \<Longrightarrow> served s0 (admit w it s)" by (rule served_admit)
qed (simp_all add: served_def tally_def gate_cbs_def)

lemma sink_no_retry:
  "mset (sink (quiesce w (snd (process w xs (Limiter l r 0 True t))))) =
     mset (failures w [] (calls (quiesce w (snd (process w xs (Limiter l r 0 True t)))))) \<and>
   mset (calls (quiesce w (snd (process w xs (Limiter l r 0 True t))))) =
     mset (map item_callback (truthy_prefix (rev xs)))"
proof -
  define s0 where "s0 = Limiter l r 0 True t"
  define p where "p = snd (process w xs s0)"
  define q where "q = quiesce w p"
  have s0: "admitted s0 = []" "calls s0 = []" "inflight s0 = []" "onError s0"
    by (simp_all add: s0_def Limiter_def)
  have s: "sinking w s0"
    using wf_rt_Limiter[of l r 0 True t]
    by (simp add: sinking_def unforwarded_def doomed_def s0_def Limiter_def pids_def)
  from sinking_process[OF s s0(4), of xs]
  have p: "sinking w p" "promises p = []" "admitted p = truthy_prefix (rev xs)"
    by (simp_all add: p_def s0)
  have "sinking w q \<and> promises q = [] \<and> admitted q = admitted p"
    unfolding q_def
    by (rule quiesce_rule[where P="\<lambda>x. sinking w x \<and> promises x = [] \<and> admitted x = admitted p"])
       (simp_all add: p sinking_fire)
  then have q: "mset (sink q) + unforwarded q + doomed q = mset (failures w [] (calls q))"
    "promises q = []" "admitted q = truthy_prefix (rev xs)"
    using p(3) by (simp_all add: sinking_def)
  have e: "inflight q = []" unfolding q_def by (rule quiesce_post)
  have 1: "mset (sink q) = mset (failures w [] (calls q))"
    using q(1,2) e by (simp add: unforwarded_def doomed_def)
  have "served s0 s0" by (simp add: served_def)
  from stable_quiesce[OF stable_served stable_process[OF stable_served this], of w w xs]
  have "served s0 q" by (simp add: q_def p_def)
  then have "mset (calls q) = mset (map item_callback (truthy_prefix (rev xs)))"
    using q(3) e s0 by (auto simp: served_def tally_def gate_cbs_def)
  with 1 show ?thesis by (simp add: q_def p_def s0_def)
qed

section \<open>Rounds of attempts\<close>

text \<open>
  A task fails at its \<open>j\<close>-th invocation. The number of invocations of a task from its
  \<open>j\<close>-th one on with \<open>k\<close> retries left, and the error it gives up with, if it does.
\<close>

definition fails_at :: "world \<Rightarrow> nat \<Rightarrow> nat \<Rightarrow> bool" where
  "fails_at w j c \<longleftrightarrow> snd (w c j) \<noteq> None"

fun tries :: "world \<Rightarrow> nat \<Rightarrow> nat \<Rightarrow> nat \<Rightarrow> nat" where
  "tries w c j 0 = 1"
| "tries w c j (Suc k) = (if fails_at w j c then Suc (tries w c (Suc j) k) else 1)"

fun gives_up :: "world \<Rightarrow> nat \<Rightarrow> nat \<Rightarrow> nat \<Rightarrow> js_error option" where
  "gives_up w c j 0 = snd (w c j)"
| "gives_up w c j (Suc k) = (if fails_at w j c then gives_up w c (Suc j) k else None)"

text \<open>
  A round in which every item has \<open>k\<close> retries left and a callback of its own, invoked
  \<open>j\<close> times before: since the state \<open>s0\<close> the items \<open>zs\<close> have been admitted, each has been
  invoked or waits at the gate, and each fails_at one is pending or in the retry queue.
\<close>

definition attempting :: "world \<Rightarrow> nat \<Rightarrow> nat \<Rightarrow> item list \<Rightarrow> state \<Rightarrow> state \<Rightarrow> bool" where
  "attempting w j k zs s0 s \<longleftrightarrow>
     0 < maxRetry s \<and> maxRetry s = maxRetry s0 \<and> onError s = onError s0 \<and>
     sink s = sink s0 \<and> rejected s = [] \<and> set (pids s) \<subseteq> set (promises s) \<and>
     list_all (\<lambda>e. item_retries (maxRetry s) (eitem e) = k \<and>
        (ephase e = Gate \<or> ephase e = Run (snd (w (item_callback (eitem e)) j))))
       (inflight s) \<and>
     list_all (\<lambda>q. retries q = k \<and> error q = snd (w (callback q) j)) (retryQueue s) \<and>
     mset (calls s0) \<subseteq># mset (calls s) \<and>
     admitted s = admitted s0 @ zs \<and> distinct (map item_callback zs) \<and>
     list_all (\<lambda>it. count_list (calls s0) (item_callback it) = j) zs \<and>
     mset (calls s) + gate_cbs s = mset (calls s0) + mset (map item_callback zs) \<and>
     queue_cbs s + filter_mset (fails_at w j) (flight_cbs s) =
       filter_mset (fails_at w j) (mset (map item_callback zs))"

lemma subset_add_mset: "A \<subseteq># B \<Longrightarrow> A \<subseteq># add_mset x B"
  by (simp add: subseteq_mset_def le_SucI)

lemma attempting_count:
  assumes a: "attempting w j k zs s0 s"
  shows "count_list (calls s) c + count (gate_cbs s) c =
         count_list (calls s0) c + (if c \<in> set (map item_callback zs) then 1 else 0)"
    and "count_list (calls s0) c \<le> count_list (calls s) c"
    and "c \<in> set (map item_callback zs) \<Longrightarrow> count_list (calls s0) c = j"
proof -
  from a have sub: "mset (calls s0) \<subseteq># mset (calls s)"
    and d: "distinct (map item_callback zs)"
    and z: "list_all (\<lambda>it. count_list (calls s0) (item_callback it) = j) zs"
    and eq: "mset (calls s) + gate_cbs s = mset (calls s0) + mset (map item_callback zs)"
    by (simp_all add: attempting_def)
  have "count (mset (calls s) + gate_cbs s) c =
        count (mset (calls s0) + mset (map item_callback zs)) c"
    by (simp only: eq)
  moreover have "count (mset (map item_callback zs)) c =
      (if c \<in> set (map item_callback zs) then 1 else 0)"
    using d by (simp only: distinct_count_atmost_1)
  ultimately show "count_list (calls s) c + count (gate_cbs s) c =
         count_list (calls s0) c + (if c \<in> set (map item_callback zs) then 1 else 0)"
    by (simp only: count_union count_mset)
  from mset_subset_eq_count[OF sub, of c]
  show "count_list (calls s0) c \<le> count_list (calls s) c" by (simp only: count_mset)
  show "c \<in> set (map item_callback zs) \<Longrightarrow> count_list (calls s0) c = j"
    using z by (auto simp: list_all_iff)
qed

lemma attempting_count_gate:
  assumes a: "attempting w j k zs s0 s" and e: "e \<in> set (inflight s)" "ephase e = Gate"
  shows "count_list (calls s) (item_callback (eitem e)) = j"
proof -
  let ?c = "item_callback (eitem e)"
  from e have "?c \<in># gate_cbs s" by (auto simp: gate_cbs_def)
  then have g: "1 \<le> count (gate_cbs s) ?c" by (simp only: count_greater_eq_one_iff)
  note c = attempting_count[OF a, of ?c]
  show ?thesis
  proof (cases "?c \<in> set (map item_callback zs)")
    case True
    with c(1) have "count_list (calls s) ?c + count (gate_cbs s) ?c = count_list (calls s0) ?c + 1"
      by (simp only: if_True)
    with g c(2) c(3)[OF True] show ?thesis by linarith
  next
    case False
    with c(1) have "count_list (calls s) ?c + count (gate_cbs s) ?c = count_list (calls s0) ?c + 0"
      by (simp only: if_False)
    with g c(2) show ?thesis by linarith
  qed
qed

lemma attempting_count_fresh:
  assumes a: "attempting w j k zs s0 s" and c: "c \<notin> set (map item_callback zs)"
  shows "count_list (calls s) c = count_list (calls s0) c" "count (gate_cbs s) c = 0"
  using attempting_count(1,2)[OF a, of c] c by simp_all

lemma attempting_fire:
  assumes r: "attempting w j k zs s0 s"
  shows "attempting w j k zs s0 (fire w s)"
proof (cases "inflight s = []")
  case True with r show ?thesis by (simp add: fire_None)
next
  case False
  define f :: "entry \<Rightarrow> nat" where "f = (\<lambda>e. item_callback (eitem e))"
  from r have zs: "admitted s = admitted s0 @ zs" "distinct (map item_callback zs)"
    "list_all (\<lambda>it. count_list (calls s0) (item_callback it) = j) zs"
    "mset (calls s) + gate_cbs s = mset (calls s0) + mset (map item_callback zs)"
    "queue_cbs s + filter_mset (fails_at w j) (flight_cbs s) =
       filter_mset (fails_at w j) (mset (map item_callback zs))"
    "mset (calls s0) \<subseteq># mset (calls s)"
    by (simp_all add: attempting_def)
  from r have m: "0 < maxRetry s" "maxRetry s = maxRetry s0" "onError s = onError s0"
    "sink s = sink s0"
    and rj: "rejected s = []"
    and ps: "set (pids s) \<subseteq> set (promises s)"
    and es: "\<forall>e\<in>set (inflight s). item_retries (maxRetry s) (eitem e) = k \<and>
        (ephase e = Gate \<or> ephase e = Run (snd (w (item_callback (eitem e)) j)))"
    and qs: "\<forall>q\<in>set (retryQueue s). retries q = k \<and> error q = snd (w (callback q) j)"
    by (auto simp: attempting_def list_all_iff)
  from False show ?thesis
  proof (cases rule: fire_elim[where w=w])
    case (Settle e res s1)
    from es Settle(2,3) have res: "res = snd (w (f e) j)"
      and ek: "item_retries (maxRetry s) (eitem e) = k" by (auto simp: f_def)
    have sub: "set (remove1 e (inflight s)) \<subseteq> set (inflight s)" by (rule set_remove1_subset)
    have g: "gate_cbs (fire w s) = gate_cbs s"
      using mset_map_filter_remove1[OF Settle(2), of f "\<lambda>e. ephase e = Gate"] Settle(3,4)
      by (simp add: Settle(5) gate_cbs_def f_def)
    have fl: "flight_cbs (fire w s) + {#f e#} = flight_cbs s"
      using mset_map_remove1[OF Settle(2), of f] Settle(4)
      by (simp add: Settle(5) flight_cbs_def f_def)
    have ff: "filter_mset (fails_at w j) (flight_cbs s) =
        filter_mset (fails_at w j) (flight_cbs (fire w s)) +
        (if fails_at w j (f e) then {#f e#} else {#})"
      unfolding fl[symmetric] by simp
    have fr: "fails_at w j (f e) \<longleftrightarrow> res \<noteq> None" using res by (simp add: fails_at_def)
    have q: "queue_cbs (fire w s) =
        queue_cbs s + (if fails_at w j (f e) then {#f e#} else {#})"
      using m Settle(4) by (cases res) (simp_all add: Settle(5) fr[unfolded f_def] queue_cbs_def f_def)
    have 1: "queue_cbs (fire w s) + filter_mset (fails_at w j) (flight_cbs (fire w s)) =
        filter_mset (fails_at w j) (mset (map item_callback zs))"
      unfolding zs(5)[symmetric] ff q by (simp only: ac_simps)
    have 2: "set (pids (fire w s)) \<subseteq> set (promises (fire w s))"
      using ps sub Settle(4) by (auto simp: Settle(5) pids_def)
    have 3: "list_all (\<lambda>q. retries q = k \<and> error q = snd (w (callback q) j))
        (retryQueue (fire w s))"
    proof (cases res)
      case None
      then have "retryQueue (fire w s) = retryQueue s" using Settle(4) by (simp add: Settle(5))
      with qs show ?thesis by (simp add: list_all_iff)
    next
      case (Some a)
      have "retryQueue (fire w s) =
          retryQueue s @ [\<lparr>callback = f e, retries = k, error = Some a\<rparr>]"
        using m ek Settle(4) by (simp add: Settle(5) Some f_def)
      moreover have "Some a = snd (w (f e) j)" using res Some by simp
      ultimately show ?thesis using qs by (simp add: list_all_iff)
    qed
    have 4: "list_all (\<lambda>e. item_retries (maxRetry (fire w s)) (eitem e) = k \<and>
        (ephase e = Gate \<or> ephase e = Run (snd (w (item_callback (eitem e)) j))))
       (inflight (fire w s))"
      using es sub Settle(4) by (auto simp: Settle(5) list_all_iff)
    have 5: "rejected (fire w s) = []" "sink (fire w s) = sink s0"
      using m rj Settle(4) by (cases res; simp add: Settle(5))+
    have 6: "calls (fire w s) = calls s" "admitted (fire w s) = admitted s"
      "maxRetry (fire w s) = maxRetry s" "onError (fire w s) = onError s"
      using Settle(4) by (simp_all add: Settle(5))
    show ?thesis
      unfolding attempting_def 6 g using zs m 1 2 3 4[unfolded 6] 5 by simp
  next
    case (Park e r s1)
    from es Park(2) have ek: "item_retries (maxRetry s) (eitem e) = k" by auto
    have sub: "set (remove1 e (inflight s)) \<subseteq> set (inflight s)" by (rule set_remove1_subset)
    have g: "gate_cbs (fire w s) = gate_cbs s"
      using mset_map_filter_remove1[OF Park(2), of f "\<lambda>e. ephase e = Gate"] Park(3,4)
      by (simp add: Park(8) gate_cbs_def f_def)
    have fl: "flight_cbs (fire w s) = flight_cbs s"
      using mset_map_remove1[OF Park(2), of f] Park(4)
      by (simp add: Park(8) flight_cbs_def f_def)
    have q: "queue_cbs (fire w s) = queue_cbs s" "retryQueue (fire w s) = retryQueue s"
      using Park(4) by (simp_all add: Park(8) queue_cbs_def)
    have 2: "set (pids (fire w s)) \<subseteq> set (promises (fire w s))"
      using ps sub Park(2,4) by (auto simp: Park(8) pids_def)
    have 4: "list_all (\<lambda>e. item_retries (maxRetry (fire w s)) (eitem e) = k \<and>
        (ephase e = Gate \<or> ephase e = Run (snd (w (item_callback (eitem e)) j))))
       (inflight (fire w s))"
      using es sub ek Park(4) by (auto simp: Park(8) list_all_iff)
    have 5: "rejected (fire w s) = []" "sink (fire w s) = sink s0"
      using m rj Park(4) by (simp_all add: Park(8) park_def)
    have 6: "calls (fire w s) = calls s" "admitted (fire w s) = admitted s"
      "maxRetry (fire w s) = maxRetry s" "onError (fire w s) = onError s"
      using Park(4) by (simp_all add: Park(8) park_def)
    show ?thesis
      unfolding attempting_def 6 g fl q using zs m qs 2 4[unfolded 6] 5
      by (simp add: list_all_iff)
  next
    case (Invoke e s1 t)
    from es Invoke(2) have ek: "item_retries (maxRetry s) (eitem e) = k" by auto
    have sub: "set (remove1 e (inflight s)) \<subseteq> set (inflight s)" by (rule set_remove1_subset)
    have "count_list (calls s) (item_callback (eitem e)) = j"
      by (rule attempting_count_gate[OF r Invoke(2,3)])
    then have o: "snd (outcome w (s1\<lparr>tick := t\<rparr>) (eitem e)) = snd (w (item_callback (eitem e)) j)"
      using Invoke(4) by (simp add: outcome_def)
    have g: "gate_cbs (fire w s) + {#f e#} = gate_cbs s"
      using mset_map_filter_remove1[OF Invoke(2), of f "\<lambda>e. ephase e = Gate"] Invoke(3,4)
      by (simp add: Invoke(5) gate_cbs_def f_def)
    have c: "mset (calls (fire w s)) = mset (calls s) + {#f e#}"
      using Invoke(4) by (simp add: Invoke(5) f_def)
    have 1: "mset (calls (fire w s)) + gate_cbs (fire w s) =
        mset (calls s0) + mset (map item_callback zs)"
      unfolding zs(4)[symmetric] g[symmetric] c by (simp only: ac_simps)
    have 7: "mset (calls s0) \<subseteq># mset (calls (fire w s))"
      using zs(6) by (simp add: c subset_add_mset)
    have fl: "flight_cbs (fire w s) = flight_cbs s"
      using mset_map_remove1[OF Invoke(2), of f] Invoke(4)
      by (simp add: Invoke(5) flight_cbs_def f_def)
    have q: "queue_cbs (fire w s) = queue_cbs s" "retryQueue (fire w s) = retryQueue s"
      using Invoke(4) by (simp_all add: Invoke(5) queue_cbs_def)
    have 2: "set (pids (fire w s)) \<subseteq> set (promises (fire w s))"
      using ps sub Invoke(2,4) by (auto simp: Invoke(5) pids_def)
    have 4: "list_all (\<lambda>e. item_retries (maxRetry (fire w s)) (eitem e) = k \<and>
        (ephase e = Gate \<or> ephase e = Run (snd (w (item_callback (eitem e)) j))))
       (inflight (fire w s))"
      using es sub ek o Invoke(4) by (auto simp: Invoke(5) list_all_iff)
    have 5: "rejected (fire w s) = []" "sink (fire w s) = sink s0"
      using m rj Invoke(4) by (simp_all add: Invoke(5) invoke_def)
    have 6: "admitted (fire w s) = admitted s"
      "maxRetry (fire w s) = maxRetry s" "onError (fire w s) = onError s"
      using Invoke(4) by (simp_all add: Invoke(5))
    show ?thesis
      unfolding attempting_def 6 fl q using zs(1-3,5) m qs 1 2 4[unfolded 6] 5 7
      by (simp add: list_all_iff)
  qed
qed

lemma attempting_execute:
  assumes r: "attempting w j k zs s0 s"
  shows "\<exists>s'. execute w s = (None, s') \<and> attempting w j k zs s0 s' \<and> inflight s' = [] \<and>
              promises s' = []"
proof -
  let ?s1 = "await_all w (promises s) s"
  have r1: "attempting w j k zs s0 ?s1"
    by (rule await_all_rule[where P="attempting w j k zs s0", OF r]) (rule attempting_fire)
  then have rj: "rejected ?s1 = []" and ps: "set (pids ?s1) \<subseteq> set (promises s)"
    by (simp_all add: attempting_def)
  have e: "inflight ?s1 = []"
  proof (rule ccontr)
    assume ne: "inflight ?s1 \<noteq> []"
    from rj have "\<not> list_ex (is_rejected ?s1) (promises s)"
      by (simp add: list_ex_iff is_rejected_def)
    with ne await_all_post[of w "promises s" s]
    have np: "\<not> list_ex (is_pending ?s1) (promises s)" by (simp add: all_settled_def)
    from ne obtain e where e: "e \<in> set (inflight ?s1)" by (cases "inflight ?s1") auto
    then have "epid e \<in> set (promises s)" using ps by (auto simp: pids_def)
    with np e show False by (auto simp: list_ex_iff is_pending_def)
  qed
  have "execute w s = (None, ?s1\<lparr>promises := []\<rparr>)" using rj by (simp add: execute_def Let_def)
  moreover have "attempting w j k zs s0 (?s1\<lparr>promises := []\<rparr>)"
    using r1 e by (simp add: attempting_def pids_def gate_cbs_def flight_cbs_def queue_cbs_def)
  ultimately show ?thesis using e by simp
qed

lemma attempting_admit:
  assumes r: "attempting w j k zs s0 s"
    and k: "item_retries (maxRetry s) it = k"
    and n: "item_callback it \<notin> set (map item_callback zs)"
    and c: "count_list (calls s0) (item_callback it) = j"
  shows "attempting w j k (zs @ [it]) s0 (admit w it s)"
proof -
  from r have zs: "admitted s = admitted s0 @ zs" "distinct (map item_callback zs)"
    "list_all (\<lambda>it. count_list (calls s0) (item_callback it) = j) zs"
    "mset (calls s) + gate_cbs s = mset (calls s0) + mset (map item_callback zs)"
    "queue_cbs s + filter_mset (fails_at w j) (flight_cbs s) =
       filter_mset (fails_at w j) (mset (map item_callback zs))"
    "mset (calls s0) \<subseteq># mset (calls s)"
    by (simp_all add: attempting_def)
  from r have m: "0 < maxRetry s" "maxRetry s = maxRetry s0" "onError s = onError s0"
    "sink s = sink s0"
    and rj: "rejected s = []"
    and ps: "set (pids s) \<subseteq> set (promises s)"
    and es: "list_all (\<lambda>e. item_retries (maxRetry s) (eitem e) = k \<and>
        (ephase e = Gate \<or> ephase e = Run (snd (w (item_callback (eitem e)) j))))
        (inflight s)"
    and qs: "list_all (\<lambda>q. retries q = k \<and> error q = snd (w (callback q) j)) (retryQueue s)"
    by (auto simp: attempting_def)
  have "count_list (calls s) (item_callback it) = j"
    using attempting_count_fresh(1)[OF r n] c by simp
  then have o: "snd (outcome w s it) = snd (w (item_callback it) j)"
    by (simp add: outcome_def)
  from admit_entry[of w it s] obtain e' where e': "inflight (admit w it s) = inflight s @ [e']"
    "epid e' = nextId s" "eitem e' = it"
    "ephase e' = Gate \<and> calls (admit w it s) = calls s \<or>
     ephase e' = Run (snd (w (item_callback it) j)) \<and>
       calls (admit w it s) = calls s @ [item_callback it]"
    unfolding o by blast
  have fl: "flight_cbs (admit w it s) = flight_cbs s + {#item_callback it#}"
    using e'(1,3) by (simp add: flight_cbs_def)
  have cg: "mset (calls (admit w it s)) + gate_cbs (admit w it s) =
      mset (calls s) + gate_cbs s + {#item_callback it#}"
    using e'(1,3,4) by (auto simp: gate_cbs_def)
  have q: "queue_cbs (admit w it s) = queue_cbs s" by (simp add: queue_cbs_def)
  have 1: "set (pids (admit w it s)) \<subseteq> set (promises (admit w it s))"
    using ps by (auto simp: pids_admit)
  have 2: "list_all (\<lambda>e. item_retries (maxRetry (admit w it s)) (eitem e) = k \<and>
        (ephase e = Gate \<or> ephase e = Run (snd (w (item_callback (eitem e)) j))))
        (inflight (admit w it s))"
    using es k e' by auto
  have 3: "admitted (admit w it s) = admitted s0 @ (zs @ [it])" using zs(1) by simp
  have 4: "mset (calls (admit w it s)) + gate_cbs (admit w it s) =
      mset (calls s0) + mset (map item_callback (zs @ [it]))"
    using cg zs(4) by simp
  have 5: "queue_cbs (admit w it s) + filter_mset (fails_at w j) (flight_cbs (admit w it s)) =
      filter_mset (fails_at w j) (mset (map item_callback (zs @ [it])))"
    unfolding fl q using zs(5) by simp
  have 6: "distinct (map item_callback (zs @ [it]))" using zs(2) n by simp
  have 7: "list_all (\<lambda>it. count_list (calls s0) (item_callback it) = j) (zs @ [it])"
    using zs(3) c by simp
  have 8: "mset (calls s0) \<subseteq># mset (calls (admit w it s))"
    using e'(4) zs(6) by (auto simp: subset_add_mset)
  show ?thesis
    unfolding attempting_def using m rj qs 1 2 3 4 5 6 7 8 by simp
qed

lemma attempting_admit_loop:
  "attempting w j k zs s0 s \<Longrightarrow> Falsy \<notin> set xs \<Longrightarrow>
   \<forall>it\<in>set xs. item_retries (maxRetry s0) it = k \<and> count_list (calls s0) (item_callback it) = j \<Longrightarrow>
   distinct (map item_callback (zs @ xs)) \<Longrightarrow>
   \<exists>s'. admit_loop w xs s = (None, s') \<and> attempting w j k (zs @ xs) s0 s'"
proof (induction xs arbitrary: s zs)
  case Nil then show ?case by simp
next
  case (Cons x xs)
  obtain s1 where s1: "(if promisesCount s \<ge> limit s then execute w s else (None, s)) = (None, s1)"
    "attempting w j k zs s0 s1"
  proof (cases "promisesCount s \<ge> limit s")
    case True
    from attempting_execute[OF Cons.prems(1)] obtain s' where
      s': "execute w s = (None, s')" "attempting w j k zs s0 s'" by auto
    with True show ?thesis by (intro that[of s']) simp_all
  next
    case False
    with Cons.prems(1) show ?thesis by (intro that[of s]) simp_all
  qed
  have "maxRetry s1 = maxRetry s0" using s1(2) by (simp add: attempting_def)
  with Cons.prems(3) have k: "item_retries (maxRetry s1) x = k" by simp
  from Cons.prems(4) have n: "item_callback x \<notin> set (map item_callback zs)" by auto
  from Cons.prems(3) have c: "count_list (calls s0) (item_callback x) = j" by simp
  from attempting_admit[OF s1(2) k n c]
  have a: "attempting w j k (zs @ [x]) s0 (admit w x s1)" .
  have d: "distinct (map item_callback ((zs @ [x]) @ xs))" using Cons.prems(4) by simp
  from Cons.IH[OF a _ _ d] Cons.prems(2,3) obtain s' where
    s': "admit_loop w xs (admit w x s1) = (None, s')" "attempting w j k ((zs @ [x]) @ xs) s0 s'"
    by auto
  from Cons.prems(2) have "x \<noteq> Falsy" by auto
  with s1 s' show ?case by (intro exI[of _ s']) simp
qed

text \<open>
  A round leaves exactly the fails_at items in the retry queue, each with its error, and has
  invoked every item once.
\<close>

lemma attempting_round:
  assumes s: "0 < maxRetry s" "rejected s = []" "inflight s = []" "retryQueue s = []"
    and xs: "Falsy \<notin> set xs" "distinct (map item_callback xs)"
      "\<forall>it\<in>set xs. item_retries (maxRetry s) it = k \<and> count_list (calls s) (item_callback it) = j"
  shows "\<exists>s2. admit_and_drain w (rev xs) (s\<lparr>processing := True\<rparr>) = (None, s2) \<and>
     maxRetry s2 = maxRetry s \<and> onError s2 = onError s \<and> sink s2 = sink s \<and>
     rejected s2 = [] \<and> inflight s2 = [] \<and>
     mset (calls s2) = mset (calls s) + mset (map item_callback xs) \<and>
     mset (map callback (retryQueue s2)) =
       filter_mset (fails_at w j) (mset (map item_callback xs)) \<and>
     list_all (\<lambda>q. retries q = k \<and> error q = snd (w (callback q) j)) (retryQueue s2)"
proof -
  let ?s0 = "s\<lparr>processing := True\<rparr>"
  have r0: "attempting w j k [] ?s0 ?s0"
    using s by (simp add: attempting_def pids_def gate_cbs_def flight_cbs_def queue_cbs_def)
  have "Falsy \<notin> set (rev xs)"
    "\<forall>it\<in>set (rev xs). item_retries (maxRetry ?s0) it = k \<and>
        count_list (calls ?s0) (item_callback it) = j"
    "distinct (map item_callback ([] @ rev xs))"
    using xs by (simp_all add: rev_map[symmetric])
  from attempting_admit_loop[OF r0 this] obtain s1 where
    s1: "admit_loop w (rev xs) ?s0 = (None, s1)" "attempting w j k (rev xs) ?s0 s1"
    by auto
  obtain s2 where s2: "admit_and_drain w (rev xs) ?s0 = (None, s2)"
    "attempting w j k (rev xs) ?s0 s2" "inflight s2 = []"
  proof (cases "promises s1 = []")
    case True
    with s1(2) have "inflight s1 = []" by (simp add: attempting_def pids_def)
    with True s1 show ?thesis by (intro that[of s1]) (simp_all add: admit_and_drain_def)
  next
    case False
    from attempting_execute[OF s1(2)] obtain s' where
      s': "execute w s1 = (None, s')" "attempting w j k (rev xs) ?s0 s'" "inflight s' = []"
      by auto
    with False s1 show ?thesis
      by (intro that[of s']) (simp_all add: admit_and_drain_def)
  qed
  from s2(2) have zs:
    "mset (calls s2) + gate_cbs s2 = mset (calls ?s0) + mset (map item_callback (rev xs))"
    "queue_cbs s2 + filter_mset (fails_at w j) (flight_cbs s2) =
       filter_mset (fails_at w j) (mset (map item_callback (rev xs)))"
    by (simp_all add: attempting_def)
  have m: "mset (map item_callback (rev xs)) = mset (map item_callback xs)"
    by (simp add: rev_map[symmetric])
  have g: "gate_cbs s2 = {#}" "flight_cbs s2 = {#}"
    using s2(3) by (simp_all add: gate_cbs_def flight_cbs_def)
  from zs m g have "mset (calls s2) = mset (calls s) + mset (map item_callback xs)"
    "mset (map callback (retryQueue s2)) =
       filter_mset (fails_at w j) (mset (map item_callback xs))"
    by (simp_all add: queue_cbs_def)
  with s2 show ?thesis by (intro exI[of _ s2]) (simp add: attempting_def)
qed

lemma tries_once:
  "sum_mset (image_mset (\<lambda>c. replicate_mset (tries w c j 0) c) M) = M"
  by (induction M) simp_all

lemma tries_again:
  "sum_mset (image_mset (\<lambda>c. replicate_mset (tries w c j (Suc k)) c) M) =
   M + sum_mset (image_mset (\<lambda>c. replicate_mset (tries w c (Suc j) k) c)
         (filter_mset (fails_at w j) M))"
  by (induction M) simp_all

lemma gives_up_again:
  "image_mset (\<lambda>c. h (gives_up w c j (Suc k)))
     (filter_mset (\<lambda>c. gives_up w c j (Suc k) \<noteq> None) M) =
   image_mset (\<lambda>c. h (gives_up w c (Suc j) k))
     (filter_mset (\<lambda>c. gives_up w c (Suc j) k \<noteq> None) (filter_mset (fails_at w j) M))"
  by (induction M) simp_all

lemma gives_up_now:
  "filter_mset (\<lambda>c. gives_up w c j 0 \<noteq> None) M = filter_mset (fails_at w j) M"
  by (rule filter_mset_cong[OF refl]) (simp add: fails_at_def)

text \<open>
  With a sink and retries, in any world: \<open>process\<close> resolves, every task has been invoked
  until it succeeded or its retries ran out, and the sink has received one
  \<open>LimiterRetryError\<close> for each task that gave up.
\<close>

lemma retries_with_sink:
  "0 < maxRetry s \<Longrightarrow> onError s \<Longrightarrow> rejected s = [] \<Longrightarrow> inflight s = [] \<Longrightarrow>
   retryQueue s = [] \<Longrightarrow> Falsy \<notin> set xs \<Longrightarrow> distinct (map item_callback xs) \<Longrightarrow>
   \<forall>it\<in>set xs. item_retries (maxRetry s) it = k \<and>
      count_list (calls s) (item_callback it) = j \<Longrightarrow>
   \<exists>s'. process w xs s = (None, s') \<and>
     mset (calls s') = mset (calls s) +
       sum_mset (image_mset (\<lambda>c. replicate_mset (tries w c j k) c)
         (mset (map item_callback xs))) \<and>
     mset (sink s') = mset (sink s) +
       image_mset (\<lambda>c. LimiterRetryError process_stack ''Retry limit exceeded'' (gives_up w c j k))
         (filter_mset (\<lambda>c. gives_up w c j k \<noteq> None) (mset (map item_callback xs)))"
proof (induction k arbitrary: xs s j)
  case 0
  from attempting_round[OF 0(1,3,4,5,6,7,8), of w] obtain s2 where
    s2: "admit_and_drain w (rev xs) (s\<lparr>processing := True\<rparr>) = (None, s2)"
    "onError s2 = onError s" "sink s2 = sink s"
    "mset (calls s2) = mset (calls s) + mset (map item_callback xs)"
    "mset (map callback (retryQueue s2)) =
       filter_mset (fails_at w j) (mset (map item_callback xs))"
    "list_all (\<lambda>q. retries q = 0 \<and> error q = snd (w (callback q) j)) (retryQueue s2)"
    by blast
  let ?q = "rev (retryQueue s2)"
  let ?L = "\<lambda>e. LimiterRetryError process_stack ''Retry limit exceeded'' e"
  have all0: "\<forall>q\<in>set ?q. retries q = 0 \<and> error q = snd (w (callback q) j)"
    using s2(6) by (auto simp: list_all_iff)
  then have f0: "filter (\<lambda>it. retries it = 0) ?q = ?q" "filter (\<lambda>it. 0 < retries it) ?q = []"
    by (auto simp: filter_id_conv filter_empty_conv)
  have ex: "exhausted_errors ?q = map (\<lambda>c. ?L (snd (w c j))) (map callback ?q)"
    unfolding exhausted_errors_def f0 using all0 by (simp add: comp_def)
  have mq: "mset (map callback ?q) = filter_mset (fails_at w j) (mset (map item_callback xs))"
    using s2(5) by (simp add: rev_map[symmetric])
  have me: "mset (exhausted_errors ?q) =
      image_mset (\<lambda>c. ?L (gives_up w c j 0))
        (filter_mset (\<lambda>c. gives_up w c j 0 \<noteq> None) (mset (map item_callback xs)))"
    unfolding ex gives_up_now mq[symmetric] by (simp only: mset_map gives_up.simps)
  obtain s3 where s3: "process_round w xs s = (None, [], s3)" "calls s3 = calls s2"
    "sink s3 = sink s2 @ exhausted_errors ?q"
  proof (cases "retryQueue s2 = []")
    case True
    then have "process_round w xs s = (None, [], s2)"
      using s2(1) by (simp add: process_round_alt)
    with True show ?thesis by (intro that[of s2]) (simp_all add: exhausted_errors_def)
  next
    case False
    let ?s' = "s2\<lparr>retryQueue := [], sink := sink s2 @ exhausted_errors ?q\<rparr>"
    have rl: "retry_loop ?q [] s2 = (None, [], ?s')"
      using retry_loop_sink[of s2 ?q "[]"] s2(2) 0(2) False by (simp add: resubmitted_def f0)
    have "process_round w xs s = (None, [], ?s')"
      using s2(1) False rl by (simp add: process_round_alt)
    then show ?thesis by (intro that[of ?s']) simp_all
  qed
  from process_done[OF s3(1)]
  have p: "process w xs s = (None, s3\<lparr>processing := False\<rparr>)" .
  have c: "mset (calls (s3\<lparr>processing := False\<rparr>)) = mset (calls s) +
       sum_mset (image_mset (\<lambda>c. replicate_mset (tries w c j 0) c)
         (mset (map item_callback xs)))"
    unfolding tries_once using s3(2) s2(4) by simp
  have k: "mset (sink (s3\<lparr>processing := False\<rparr>)) = mset (sink s) +
       image_mset (\<lambda>c. ?L (gives_up w c j 0))
         (filter_mset (\<lambda>c. gives_up w c j 0 \<noteq> None) (mset (map item_callback xs)))"
    unfolding me[symmetric] using s3(3) s2(3) by simp
  from p c k show ?case by (intro exI[of _ "s3\<lparr>processing := False\<rparr>"] conjI)
next
  case (Suc k)
  from attempting_round[OF Suc.prems(1,3,4,5,6,7,8), of w] obtain s2 where
    s2: "admit_and_drain w (rev xs) (s\<lparr>processing := True\<rparr>) = (None, s2)"
    "maxRetry s2 = maxRetry s" "onError s2 = onError s" "sink s2 = sink s"
    "rejected s2 = []" "inflight s2 = []"
    "mset (calls s2) = mset (calls s) + mset (map item_callback xs)"
    "mset (map callback (retryQueue s2)) =
       filter_mset (fails_at w j) (mset (map item_callback xs))"
    "list_all (\<lambda>q. retries q = Suc k \<and> error q = snd (w (callback q) j)) (retryQueue s2)"
    by blast
  let ?q = "rev (retryQueue s2)"
  let ?L = "\<lambda>e. LimiterRetryError process_stack ''Retry limit exceeded'' e"
  let ?M = "mset (map item_callback xs)"
  let ?F = "filter_mset (fails_at w j) ?M"
  have mq: "mset (map callback ?q) = ?F"
    using s2(8) by (simp add: rev_map[symmetric])
  have c2: "mset (calls s2) + sum_mset (image_mset (\<lambda>c. replicate_mset (tries w c (Suc j) k) c) ?F) =
      mset (calls s) + sum_mset (image_mset (\<lambda>c. replicate_mset (tries w c j (Suc k)) c) ?M)"
    unfolding tries_again s2(7) by (simp only: add.assoc)
  have k2: "image_mset (\<lambda>c. ?L (gives_up w c (Suc j) k))
         (filter_mset (\<lambda>c. gives_up w c (Suc j) k \<noteq> None) ?F) =
       image_mset (\<lambda>c. ?L (gives_up w c j (Suc k)))
         (filter_mset (\<lambda>c. gives_up w c j (Suc k) \<noteq> None) ?M)"
    by (rule gives_up_again[symmetric])
  show ?case
  proof (cases "retryQueue s2 = []")
    case True
    then have pr: "process_round w xs s = (None, [], s2)"
      using s2(1) by (simp add: process_round_alt)
    from True mq have F: "?F = {#}" by simp
    from process_done[OF pr]
    have p: "process w xs s = (None, s2\<lparr>processing := False\<rparr>)" .
    have c: "mset (calls (s2\<lparr>processing := False\<rparr>)) = mset (calls s) +
       sum_mset (image_mset (\<lambda>c. replicate_mset (tries w c j (Suc k)) c) ?M)"
      unfolding c2[symmetric] F by simp
    have g: "mset (sink (s2\<lparr>processing := False\<rparr>)) = mset (sink s) +
       image_mset (\<lambda>c. ?L (gives_up w c j (Suc k)))
         (filter_mset (\<lambda>c. gives_up w c j (Suc k) \<noteq> None) ?M)"
      unfolding k2[symmetric] F using s2(4) by simp
    from p c g show ?thesis by (intro exI[of _ "s2\<lparr>processing := False\<rparr>"] conjI)
  next
    case ne: False
    have allk: "\<forall>q\<in>set ?q. retries q = Suc k" using s2(9) by (auto simp: list_all_iff)
    then have f0: "filter (\<lambda>it. retries it = 0) ?q = []" "filter (\<lambda>it. 0 < retries it) ?q = ?q"
      by (auto simp: filter_id_conv filter_empty_conv)
    define ris where "ris = map (\<lambda>it. it\<lparr>retries := retries it - 1\<rparr>) ?q"
    define s3 where "s3 = s2\<lparr>retryQueue := []\<rparr>"
    have s3: "maxRetry s3 = maxRetry s" "onError s3" "sink s3 = sink s" "rejected s3 = []"
      "inflight s3 = []" "retryQueue s3 = []" "calls s3 = calls s2" "0 < maxRetry s3"
      using s2 Suc.prems(1,2) by (simp_all add: s3_def)
    have rl: "retry_loop ?q [] s2 = (None, ris, s3)"
      using retry_loop_sink[of s2 ?q "[]"] s2(3) Suc.prems(2) ne
      by (simp add: resubmitted_def exhausted_errors_def f0 ris_def s3_def)
    have rne: "ris \<noteq> []" using ne by (simp add: ris_def)
    have pr: "process_round w xs s = (None, ris, s3)"
      using s2(1) ne rl by (simp add: process_round_alt)
    have cbs: "map item_callback (map Retry ris) = map callback ?q"
      by (simp add: ris_def comp_def)
    have mcb: "mset (map item_callback (map Retry ris)) = ?F"
      unfolding cbs by (rule mq)
    have "mset (map callback ?q) = mset (filter (fails_at w j) (map item_callback xs))"
      unfolding mq by simp
    then have "distinct (map callback ?q) = distinct (filter (fails_at w j) (map item_callback xs))"
      by (rule mset_eq_imp_distinct_iff)
    with Suc.prems(7) have d: "distinct (map item_callback (map Retry ris))"
      unfolding cbs by simp
    have cnt: "count_list (calls s3) c = Suc j" if "c \<in> set (map callback ?q)" for c
    proof -
      from that have "c \<in># ?F" unfolding mq[symmetric] by simp
      then have cin: "c \<in> set (map item_callback xs)" by simp
      with Suc.prems(8) have cj: "count_list (calls s) c = j" by auto
      from cin Suc.prems(7) have "count ?M c = 1"
        by (simp only: distinct_count_atmost_1 if_True)
      moreover have "count_list (calls s2) c = count_list (calls s) c + count ?M c"
        using arg_cong[OF s2(7), of "\<lambda>m. count m c"] by (simp only: count_union count_mset)
      ultimately show ?thesis using cj by (simp only: s3(7))
    qed
    have k': "\<forall>it\<in>set (map Retry ris). item_retries (maxRetry s3) it = k \<and>
        count_list (calls s3) (item_callback it) = Suc j"
    proof
      fix it assume "it \<in> set (map Retry ris)"
      then obtain q where q: "q \<in> set ?q" "it = Retry (q\<lparr>retries := retries q - 1\<rparr>)"
        by (auto simp: ris_def)
      from q(1) have "callback q \<in> set (map callback ?q)" by simp
      from cnt[OF this] q allk
      show "item_retries (maxRetry s3) it = k \<and> count_list (calls s3) (item_callback it) = Suc j"
        by simp
    qed
    have nf: "Falsy \<notin> set (map Retry ris)" by auto
    from Suc.IH[OF s3(8) s3(2) s3(4) s3(5) s3(6) nf d k']
    obtain s' where c: "process w (map Retry ris) s3 = (None, s')"
      "mset (calls s') = mset (calls s3) +
         sum_mset (image_mset (\<lambda>c. replicate_mset (tries w c (Suc j) k) c)
           (mset (map item_callback (map Retry ris))))"
      "mset (sink s') = mset (sink s3) +
         image_mset (\<lambda>c. ?L (gives_up w c (Suc j) k))
           (filter_mset (\<lambda>c. gives_up w c (Suc j) k \<noteq> None)
              (mset (map item_callback (map Retry ris))))"
      by blast
    have p: "process w xs s = (None, s'\<lparr>processing := False\<rparr>)"
      using process_again[OF pr rne] c(1) by simp
    have c': "mset (calls (s'\<lparr>processing := False\<rparr>)) = mset (calls s) +
       sum_mset (image_mset (\<lambda>c. replicate_mset (tries w c j (Suc k)) c) ?M)"
      unfolding c2[symmetric] using c(2) by (simp only: mcb s3(7)) simp
    have g: "mset (sink (s'\<lparr>processing := False\<rparr>)) = mset (sink s) +
       image_mset (\<lambda>c. ?L (gives_up w c j (Suc k)))
         (filter_mset (\<lambda>c. gives_up w c j (Suc k) \<noteq> None) ?M)"
      unfolding k2[symmetric] using c(3) by (simp only: mcb s3(3)) simp
    from p c' g show ?thesis by (intro exI[of _ "s'\<lparr>processing := False\<rparr>"] conjI)
  qed
qed

section \<open>The error sink, verified\<close>

text \<open>
  Task 1 always fails with \<open>boom\<close>, task 3 fails once and then succeeds, every other task
  succeeds; each invocation takes 5 ms.
\<close>

definition flaky_world :: world where
  "flaky_world = (\<lambda>c n. (5, if c = 1 \<or> (c = 3 \<and> n = 0) then Some boom else None))"



end
